theory Spec2Isabelle
  imports Main "HOL-Library.Word"
begin

section \<open>Kernel memory holding the buffer chunks\<close>

text \<open>
  The chunks of a configuration buffer live in kernel memory and are shared between the
  read pointer, the write pointer and the chain links, so memory is an explicit store
  from addresses to chunks. \<open>None\<close> as a pointer is \<open>NULL\<close>. An address that is
  not in the store is not allocated (never allocated, or freed); dereferencing it is
  undefined behaviour in C and makes the modelled function return \<open>None\<close>.
\<close>

type_synonym u_int = "32 word"
type_synonym addr = nat

text \<open>
  \<open>struct nm_confbuf_data\<close>: the chain link, the logical size and the flexible array
  member \<open>data[]\<close>. The array is a function from offsets to bytes together with the
  number of bytes that were allocated for it (\<open>d_alloc\<close>, fixed at allocation).
\<close>

record nm_confbuf_data =
  d_chain :: "addr option"
  d_size :: u_int
  d_data :: "nat \<Rightarrow> 8 word"
  d_alloc :: nat

text \<open>
  The allocator: \<open>brk\<close> is the next address handed out (addresses are never reused),
  \<open>avail\<close> is the number of bytes a non-sleeping allocation can still get, and
  \<open>junk a i\<close> is the byte found at offset \<open>i\<close> of fresh memory at address \<open>a\<close>
  (\<open>malloc\<close> without \<open>M_ZERO\<close> does not initialise).
\<close>

record kmem =
  objs :: "addr \<rightharpoonup> nm_confbuf_data"
  brk :: addr
  avail :: nat
  junk :: "addr \<Rightarrow> nat \<Rightarrow> 8 word"

definition sizeof_nm_confbuf_data :: nat where
  "sizeof_nm_confbuf_data = 16"

definition malloc :: "kmem \<Rightarrow> nat \<Rightarrow> (addr \<times> kmem) option" where
  "malloc h n =
     (if avail h < n then None
      else Some (brk h,
        h\<lparr>objs := (objs h)(brk h \<mapsto>
              \<lparr>d_chain = None, d_size = 0, d_data = junk h (brk h),
               d_alloc = n - sizeof_nm_confbuf_data\<rparr>),
          brk := Suc (brk h),
          avail := avail h - n\<rparr>))"

definition free :: "kmem \<Rightarrow> addr \<Rightarrow> kmem" where
  "free h a =
     (case objs h a of
        None \<Rightarrow> h
      | Some c \<Rightarrow> h\<lparr>objs := (objs h)(a := None),
                     avail := avail h + sizeof_nm_confbuf_data + d_alloc c\<rparr>)"

section \<open>The chunked buffer\<close>

definition NM_CBDATASIZ :: u_int where
  "NM_CBDATASIZ = 1024"

definition NM_CBDATAMAX :: u_int where
  "NM_CBDATAMAX = 4"

text \<open>
  \<open>struct netmap_confbuf\<close> is declared in a header outside this file; its fields are
  the ones the functions below use. The counters are taken to be \<open>u_int\<close>, the type of
  every value assigned to them.
\<close>

record netmap_confbuf =
  readp :: "addr option"
  writep :: "addr option"
  n_data :: u_int
  next_w :: u_int
  next_r :: u_int

text \<open>A pointer into a chunk's \<open>data\<close>: the chunk and the offset.\<close>

type_synonym ptr = "addr \<times> u_int"

text \<open>
  A store through a chunk pointer (\<open>d->size = ...; d->chain = ...\<close>).
\<close>

definition store :: "kmem \<Rightarrow> addr \<Rightarrow> (nm_confbuf_data \<Rightarrow> nm_confbuf_data) \<Rightarrow> kmem" where
  "store h a f = h\<lparr>objs := (objs h)(a := map_option f (objs h a))\<rparr>"

text \<open>
  \<open>netmap_confbuf_pre_write\<close>. \<open>avl\<close> says whether \<open>avl_size\<close> is non-\<open>NULL\<close>.
  The result is \<open>None\<close> on an invalid write pointer; otherwise the returned pointer
  (\<open>None\<close> for \<open>NULL\<close>) with the final value of \<open>s\<close>, which is what \<open>*avl_size\<close>
  receives, and the new memory and buffer.

  \<open>clip\<close> is the code at label \<open>out\<close>; \<open>pre_write_expand\<close> is the part that
  expands the buffer, entered with the old write chunk \<open>d\<close>.
\<close>

definition clip :: "u_int \<Rightarrow> u_int \<Rightarrow> u_int" where
  "clip s req_size = (if req_size < s then req_size else s)"

definition pre_write_expand ::
  "kmem \<Rightarrow> netmap_confbuf \<Rightarrow> addr option \<Rightarrow> u_int \<Rightarrow> bool
     \<Rightarrow> ((ptr \<times> u_int) option \<times> kmem \<times> netmap_confbuf) option" where
  "pre_write_expand h cb d req_size avl =
     (if NM_CBDATAMAX \<le> n_data cb then Some (None, h, cb)
      else
        let s = (if NM_CBDATASIZ < req_size \<and> \<not> avl then req_size else NM_CBDATASIZ) in
        (case malloc h (sizeof_nm_confbuf_data + unat s) of
           None \<Rightarrow> Some (None, h, cb)
         | Some (nd, h1) \<Rightarrow>
             let h2 = store h1 nd (\<lambda>c. c\<lparr>d_size := s, d_chain := None\<rparr>);
                 h3 = (case d of
                         None \<Rightarrow> h2
                       | Some a \<Rightarrow> store h2 a (\<lambda>c. c\<lparr>d_size := next_w cb, d_chain := Some nd\<rparr>));
                 cb1 = cb\<lparr>n_data := n_data cb + 1\<rparr>;
                 cb2 = (if readp cb1 = None
                        then cb1\<lparr>readp := Some nd, writep := Some nd\<rparr> else cb1)
             in Some (Some ((nd, 0), clip s req_size), h3, cb2)))"

definition netmap_confbuf_pre_write ::
  "kmem \<Rightarrow> netmap_confbuf \<Rightarrow> u_int \<Rightarrow> bool
     \<Rightarrow> ((ptr \<times> u_int) option \<times> kmem \<times> netmap_confbuf) option" where
  "netmap_confbuf_pre_write h cb req_size avl =
     (case writep cb of
        None \<Rightarrow> pre_write_expand h cb None req_size avl
      | Some a \<Rightarrow>
          (case objs h a of
             None \<Rightarrow> None
           | Some dc \<Rightarrow>
               let s = d_size dc - next_w cb in
               if 0 < s \<and> (req_size \<le> s \<or> avl)
               then Some (Some ((a, next_w cb), clip s req_size), h, cb)
               else pre_write_expand h cb (Some a) req_size avl))"

text \<open>\<open>netmap_confbuf_post_write\<close>.\<close>

definition netmap_confbuf_post_write ::
  "kmem \<Rightarrow> netmap_confbuf \<Rightarrow> u_int \<Rightarrow> netmap_confbuf option" where
  "netmap_confbuf_post_write h cb sz =
     (case writep cb of
        None \<Rightarrow> None
      | Some w \<Rightarrow>
          (case objs h w of
             None \<Rightarrow> None
           | Some wc \<Rightarrow>
               let cb1 = (if next_w cb = d_size wc
                          then cb\<lparr>writep := d_chain wc, next_w := 0\<rparr> else cb)
               in Some (cb1\<lparr>next_w := next_w cb1 + sz\<rparr>)))"

text \<open>
  \<open>netmap_confbuf_pre_read\<close>: the \<open>for (;;)\<close> loop over the chain, started at
  \<open>readp\<close> and \<open>next_r\<close>. The result is the returned pointer and the final \<open>*size\<close>.
  A chain that never ends makes the loop run forever: no result.
\<close>

partial_function (option) pre_read_loop ::
  "kmem \<Rightarrow> addr option \<Rightarrow> u_int \<Rightarrow> u_int \<Rightarrow> (ptr option \<times> u_int) option" where
  "pre_read_loop h d n sz =
     (case d of
        None \<Rightarrow> Some (None, 0)
      | Some a \<Rightarrow>
          (case objs h a of
             None \<Rightarrow> None
           | Some dc \<Rightarrow>
               if n < d_size dc then
                 let s = d_size dc - n in
                 Some (Some (a, n), if sz < s then sz else s)
               else pre_read_loop h (d_chain dc) 0 sz))"

definition netmap_confbuf_pre_read ::
  "kmem \<Rightarrow> netmap_confbuf \<Rightarrow> u_int \<Rightarrow> (ptr option \<times> u_int) option" where
  "netmap_confbuf_pre_read h cb sz = pre_read_loop h (readp cb) (next_r cb) sz"

text \<open>\<open>netmap_confbuf_post_read\<close>.\<close>

definition netmap_confbuf_post_read ::
  "kmem \<Rightarrow> netmap_confbuf \<Rightarrow> u_int \<Rightarrow> (kmem \<times> netmap_confbuf) option" where
  "netmap_confbuf_post_read h cb sz =
     (case readp cb of
        None \<Rightarrow> None
      | Some r \<Rightarrow>
          (case objs h r of
             None \<Rightarrow> None
           | Some rc \<Rightarrow>
               let (h1, cb1) =
                     (if next_r cb = d_size rc
                      then (free h r,
                            cb\<lparr>readp := d_chain rc, next_r := 0, n_data := n_data cb - 1\<rparr>)
                      else (h, cb))
               in Some (h1, cb1\<lparr>next_r := next_r cb1 + sz\<rparr>)))"

section \<open>The stream adapter\<close>

text \<open>
  \<open>netmap_confbuf_peek\<close> returns \<open>*(char *)p\<close> as an \<open>int\<close>; \<open>char\<close> is signed on
  the supported targets. The buffer and the memory are not changed, and are returned as
  they are. A pointer past the allocated bytes has no defined value.
\<close>

definition netmap_confbuf_peek ::
  "kmem \<Rightarrow> netmap_confbuf \<Rightarrow> (int \<times> kmem \<times> netmap_confbuf) option" where
  "netmap_confbuf_peek h cb =
     (case netmap_confbuf_pre_read h cb 1 of
        None \<Rightarrow> None
      | Some (None, s) \<Rightarrow> Some (0, h, cb)
      | Some (Some (a, n), s) \<Rightarrow>
          (case objs h a of
             None \<Rightarrow> None
           | Some c \<Rightarrow>
               if unat n < d_alloc c then Some (sint (d_data c (unat n)), h, cb) else None))"

definition netmap_confbuf_consume ::
  "kmem \<Rightarrow> netmap_confbuf \<Rightarrow> (kmem \<times> netmap_confbuf) option" where
  "netmap_confbuf_consume h cb = netmap_confbuf_post_read h cb 1"

section \<open>Destroying a buffer\<close>

text \<open>The \<open>while (d)\<close> loop of \<open>netmap_confbuf_destroy\<close>, then the \<open>memset\<close>.\<close>

partial_function (option) destroy_loop :: "kmem \<Rightarrow> addr option \<Rightarrow> kmem option" where
  "destroy_loop h d =
     (case d of
        None \<Rightarrow> Some h
      | Some a \<Rightarrow>
          (case objs h a of
             None \<Rightarrow> None
           | Some dc \<Rightarrow> destroy_loop (free h a) (d_chain dc)))"

definition zero_confbuf :: netmap_confbuf where
  "zero_confbuf = \<lparr>readp = None, writep = None, n_data = 0, next_w = 0, next_r = 0\<rparr>"

definition netmap_confbuf_destroy ::
  "kmem \<Rightarrow> netmap_confbuf \<Rightarrow> (kmem \<times> netmap_confbuf) option" where
  "netmap_confbuf_destroy h cb =
     (case destroy_loop h (readp cb) of
        None \<Rightarrow> None
      | Some h1 \<Rightarrow> Some (h1, zero_confbuf))"

section \<open>The transport\<close>

text \<open>
  Modelled from the spec: the transport's capability to move bytes between a kernel
  region and caller-supplied memory (\<open>struct uio\<close> and \<open>uiomove\<close> of the host kernel,
  which are not part of this file). \<open>uio_resid\<close> is the remaining byte count of the
  request, \<open>uio_mem\<close> the valid caller memory ahead of the transfer position (for a
  write, the bytes to be taken), and \<open>uio_out\<close> the bytes stored into caller memory so far
  (for a read). A move of up to \<open>n\<close> bytes moves \<open>min n uio_resid\<close> bytes; it fails with
  \<open>EFAULT\<close>, moving nothing, when the caller memory is shorter than that. A kernel
  region that is not inside an allocated chunk has no defined behaviour.
\<close>

datatype uio_rw = UIO_READ | UIO_WRITE

record uio =
  uio_rw :: uio_rw
  uio_resid :: nat
  uio_mem :: "8 word list"
  uio_out :: "8 word list"

definition ENOMEM :: int where
  "ENOMEM = 12"

definition EFAULT :: int where
  "EFAULT = 14"

definition uiomove :: "kmem \<Rightarrow> ptr \<Rightarrow> int \<Rightarrow> uio \<Rightarrow> (int \<times> kmem \<times> uio) option" where
  "uiomove h p n uio =
     (let k = min (nat n) (uio_resid uio); a = fst p; b = unat (snd p) in
      case objs h a of
        None \<Rightarrow> None
      | Some c \<Rightarrow>
          if d_alloc c < b + k then None
          else if length (uio_mem uio) < k then Some (EFAULT, h, uio)
          else
            let uio1 = uio\<lparr>uio_resid := uio_resid uio - k, uio_mem := drop k (uio_mem uio)\<rparr> in
            (case uio_rw uio of
               UIO_WRITE \<Rightarrow>
                 Some (0,
                   store h a (\<lambda>c. c\<lparr>d_data := (\<lambda>i. if b \<le> i \<and> i < b + k
                                                   then uio_mem uio ! (i - b) else d_data c i)\<rparr>),
                   uio1)
             | UIO_READ \<Rightarrow>
                 Some (0, h,
                   uio1\<lparr>uio_out := uio_out uio @ map (d_data c) [b ..< b + k]\<rparr>)))"

section \<open>The configuration channel\<close>

text \<open>
  \<open>struct netmap_config\<close>: the two buffers \<open>buf[0]\<close> (input) and \<open>buf[1]\<close> (output).
  The mutex serialises the calls; each call is modelled as it runs with the lock held.
\<close>

record netmap_config =
  buf0 :: netmap_confbuf
  buf1 :: netmap_confbuf

definition netmap_config_parse :: "kmem \<Rightarrow> netmap_config \<Rightarrow> kmem \<times> netmap_config" where
  "netmap_config_parse h c = (h, c)"

text \<open>
  The \<open>while (uio->uio_resid > 0)\<close> loop of \<open>netmap_config_write\<close> on the buffer
  \<open>i\<close>. \<open>int s = uio->uio_resid\<close> keeps the low 32 bits of the count, and \<open>s\<close> is
  passed to \<open>uiomove\<close> as a signed \<open>int\<close>.
\<close>

partial_function (option) config_write_loop ::
  "kmem \<Rightarrow> netmap_confbuf \<Rightarrow> uio \<Rightarrow> (int \<times> kmem \<times> netmap_confbuf \<times> uio) option" where
  "config_write_loop h i uio =
     (if 0 < uio_resid uio then
        (case netmap_confbuf_pre_write h i (of_nat (uio_resid uio)) True of
           None \<Rightarrow> None
         | Some (None, h1, i1) \<Rightarrow> Some (ENOMEM, h1, i1, uio)
         | Some (Some (p, s), h1, i1) \<Rightarrow>
             (case uiomove h1 p (sint s) uio of
                None \<Rightarrow> None
              | Some (ret, h2, uio2) \<Rightarrow>
                  if ret \<noteq> 0 then Some (ret, h2, i1, uio2)
                  else (case netmap_confbuf_post_write h2 i1 s of
                          None \<Rightarrow> None
                        | Some i2 \<Rightarrow> config_write_loop h2 i2 uio2)))
      else Some (0, h, i, uio))"

definition netmap_config_write ::
  "kmem \<Rightarrow> netmap_config \<Rightarrow> uio \<Rightarrow> (int \<times> kmem \<times> netmap_config \<times> uio) option" where
  "netmap_config_write h c uio =
     (case netmap_confbuf_destroy h (buf1 c) of
        None \<Rightarrow> None
      | Some (h1, o1) \<Rightarrow>
          (case config_write_loop h1 (buf0 c) uio of
             None \<Rightarrow> None
           | Some (ret, h2, i2, uio2) \<Rightarrow> Some (ret, h2, \<lparr>buf0 = i2, buf1 = o1\<rparr>, uio2)))"

text \<open>The \<open>while (uio->uio_resid > 0)\<close> loop of \<open>netmap_config_read\<close> on the buffer \<open>o\<close>.\<close>

partial_function (option) config_read_loop ::
  "kmem \<Rightarrow> netmap_confbuf \<Rightarrow> uio \<Rightarrow> (int \<times> kmem \<times> netmap_confbuf \<times> uio) option" where
  "config_read_loop h ob uio =
     (if 0 < uio_resid uio then
        (case netmap_confbuf_pre_read h ob (of_nat (uio_resid uio)) of
           None \<Rightarrow> None
         | Some (None, s) \<Rightarrow> Some (0, h, ob, uio)
         | Some (Some p, s) \<Rightarrow>
             (case uiomove h p (sint s) uio of
                None \<Rightarrow> None
              | Some (ret, h2, uio2) \<Rightarrow>
                  if ret \<noteq> 0 then Some (ret, h2, ob, uio2)
                  else (case netmap_confbuf_post_read h2 ob s of
                          None \<Rightarrow> None
                        | Some (h3, o3) \<Rightarrow> config_read_loop h3 o3 uio2)))
      else Some (0, h, ob, uio))"

definition netmap_config_read ::
  "kmem \<Rightarrow> netmap_config \<Rightarrow> uio \<Rightarrow> (int \<times> kmem \<times> netmap_config \<times> uio) option" where
  "netmap_config_read h c uio =
     (let (h0, c0) = netmap_config_parse h c in
      case config_read_loop h0 (buf1 c0) uio of
        None \<Rightarrow> None
      | Some (ret, h1, o1, uio1) \<Rightarrow> Some (ret, h1, c0\<lparr>buf1 := o1\<rparr>, uio1))"

text \<open>\<open>netmap_config_uninit\<close>: the parse step, then both buffers are destroyed.\<close>

definition netmap_config_uninit :: "kmem \<Rightarrow> netmap_config \<Rightarrow> (kmem \<times> netmap_config) option" where
  "netmap_config_uninit h c =
     (let (h0, c0) = netmap_config_parse h c in
      case netmap_confbuf_destroy h0 (buf0 c0) of
        None \<Rightarrow> None
      | Some (h1, i1) \<Rightarrow>
          (case netmap_confbuf_destroy h1 (buf1 c0) of
             None \<Rightarrow> None
           | Some (h2, o2) \<Rightarrow> Some (h2, \<lparr>buf0 = i1, buf1 = o2\<rparr>)))"

section \<open>Sequences of buffer calls\<close>

text \<open>
  A client of the buffer issues calls one after the other. \<open>cb_step\<close> runs one call on
  the memory and the buffer and reports how many bytes of writable region the call handed
  out (the length returned by a successful \<open>netmap_confbuf_pre_write\<close>, 0 for every other
  call); \<open>cb_run\<close> runs a list of calls and adds these lengths up. A call with no defined
  behaviour ends the run with \<open>None\<close>.
\<close>

datatype cb_call =
    Pre_write u_int bool
  | Post_write u_int
  | Pre_read u_int
  | Post_read u_int
  | Peek
  | Consume
  | Destroy

fun cb_step :: "kmem \<Rightarrow> netmap_confbuf \<Rightarrow> cb_call \<Rightarrow> (nat \<times> kmem \<times> netmap_confbuf) option" where
  "cb_step h cb (Pre_write req_size avl) =
     (case netmap_confbuf_pre_write h cb req_size avl of
        None \<Rightarrow> None
      | Some (None, h1, cb1) \<Rightarrow> Some (0, h1, cb1)
      | Some (Some (p, s), h1, cb1) \<Rightarrow> Some (unat s, h1, cb1))"
| "cb_step h cb (Post_write sz) =
     (case netmap_confbuf_post_write h cb sz of
        None \<Rightarrow> None
      | Some cb1 \<Rightarrow> Some (0, h, cb1))"
| "cb_step h cb (Pre_read sz) =
     (case netmap_confbuf_pre_read h cb sz of
        None \<Rightarrow> None
      | Some r \<Rightarrow> Some (0, h, cb))"
| "cb_step h cb (Post_read sz) =
     (case netmap_confbuf_post_read h cb sz of
        None \<Rightarrow> None
      | Some (h1, cb1) \<Rightarrow> Some (0, h1, cb1))"
| "cb_step h cb Peek =
     (case netmap_confbuf_peek h cb of
        None \<Rightarrow> None
      | Some (v, h1, cb1) \<Rightarrow> Some (0, h1, cb1))"
| "cb_step h cb Consume =
     (case netmap_confbuf_consume h cb of
        None \<Rightarrow> None
      | Some (h1, cb1) \<Rightarrow> Some (0, h1, cb1))"
| "cb_step h cb Destroy =
     (case netmap_confbuf_destroy h cb of
        None \<Rightarrow> None
      | Some (h1, cb1) \<Rightarrow> Some (0, h1, cb1))"

fun cb_run :: "kmem \<Rightarrow> netmap_confbuf \<Rightarrow> cb_call list \<Rightarrow> (nat \<times> kmem \<times> netmap_confbuf) option" where
  "cb_run h cb [] = Some (0, h, cb)"
| "cb_run h cb (x # xs) =
     (case cb_step h cb x of
        None \<Rightarrow> None
      | Some (n, h1, cb1) \<Rightarrow>
          (case cb_run h1 cb1 xs of
             None \<Rightarrow> None
           | Some (t, h2, cb2) \<Rightarrow> Some (n + t, h2, cb2)))"

section \<open>Writing and reading back\<close>

text \<open>
  \<open>write_req bs\<close> is a write request for the bytes \<open>bs\<close>, all of them in valid caller
  memory. \<open>write_calls\<close> runs the write loop once per request on one buffer and collects
  the return values. \<open>read_back\<close> runs the read loop on a buffer with a request for \<open>n\<close>
  bytes and gives the return value and the bytes delivered. \<open>round_trip\<close> writes the
  given byte sequences to the empty buffer, one call each, and reads back from that same
  buffer, nothing having transformed the bytes in between.
\<close>

definition write_req :: "8 word list \<Rightarrow> uio" where
  "write_req bs = \<lparr>uio_rw = UIO_WRITE, uio_resid = length bs, uio_mem = bs, uio_out = []\<rparr>"

fun write_calls ::
  "kmem \<Rightarrow> netmap_confbuf \<Rightarrow> uio list \<Rightarrow> (int list \<times> kmem \<times> netmap_confbuf) option" where
  "write_calls h cb [] = Some ([], h, cb)"
| "write_calls h cb (u # us) =
     (case config_write_loop h cb u of
        None \<Rightarrow> None
      | Some (ret, h1, cb1, u1) \<Rightarrow>
          (case write_calls h1 cb1 us of
             None \<Rightarrow> None
           | Some (rets, h2, cb2) \<Rightarrow> Some (ret # rets, h2, cb2)))"

definition read_back :: "kmem \<Rightarrow> netmap_confbuf \<Rightarrow> nat \<Rightarrow> (int \<times> 8 word list) option" where
  "read_back h cb n =
     (case config_read_loop h cb
             \<lparr>uio_rw = UIO_READ, uio_resid = n, uio_mem = replicate n 0, uio_out = []\<rparr> of
        None \<Rightarrow> None
      | Some (ret, h1, cb1, u1) \<Rightarrow> Some (ret, uio_out u1))"

definition round_trip ::
  "kmem \<Rightarrow> 8 word list list \<Rightarrow> nat \<Rightarrow> (int list \<times> int \<times> 8 word list) option" where
  "round_trip h wss n =
     (case write_calls h zero_confbuf (map write_req wss) of
        None \<Rightarrow> None
      | Some (rets, h1, cb1) \<Rightarrow>
          (case read_back h1 cb1 n of
             None \<Rightarrow> None
           | Some (ret, bs) \<Rightarrow> Some (rets, ret, bs)))"

text \<open>\<open>config_writes\<close> runs \<open>netmap_config_write\<close> once per request on a channel.\<close>

fun config_writes ::
  "kmem \<Rightarrow> netmap_config \<Rightarrow> uio list \<Rightarrow> (int list \<times> kmem \<times> netmap_config) option" where
  "config_writes h c [] = Some ([], h, c)"
| "config_writes h c (u # us) =
     (case netmap_config_write h c u of
        None \<Rightarrow> None
      | Some (ret, h1, c1, u1) \<Rightarrow>
          (case config_writes h1 c1 us of
             None \<Rightarrow> None
           | Some (rets, h2, c2) \<Rightarrow> Some (ret # rets, h2, c2)))"

text \<open>
  \<open>peek_consume_run h cb n\<close> calls \<open>netmap_confbuf_peek\<close> and then
  \<open>netmap_confbuf_consume\<close>, \<open>n\<close> times in a row, and collects the values that
  \<open>netmap_confbuf_peek\<close> returned.
\<close>

fun peek_consume_run ::
  "kmem \<Rightarrow> netmap_confbuf \<Rightarrow> nat \<Rightarrow> (int list \<times> kmem \<times> netmap_confbuf) option" where
  "peek_consume_run h cb 0 = Some ([], h, cb)"
| "peek_consume_run h cb (Suc n) =
     (case netmap_confbuf_peek h cb of
        None \<Rightarrow> None
      | Some (x, h1, cb1) \<Rightarrow>
          (case netmap_confbuf_consume h1 cb1 of
             None \<Rightarrow> None
           | Some (h2, cb2) \<Rightarrow>
               (case peek_consume_run h2 cb2 n of
                  None \<Rightarrow> None
                | Some (xs, h3, cb3) \<Rightarrow> Some (x # xs, h3, cb3))))"

section \<open>Chains and invariants\<close>

text \<open>
  \<open>chain_path h p as\<close>: following the chain links from the pointer \<open>p\<close> visits exactly
  the allocated chunks \<open>as\<close>, in this order, and then reaches \<open>NULL\<close>.
\<close>

fun chain_path :: "kmem \<Rightarrow> addr option \<Rightarrow> addr list \<Rightarrow> bool" where
  "chain_path h p [] = (p = None)"
| "chain_path h p (a # as) =
     (p = Some a \<and> (case objs h a of None \<Rightarrow> False | Some c \<Rightarrow> chain_path h (d_chain c) as))"

text \<open>The allocator has handed out only addresses below \<open>brk\<close>.\<close>

definition alloc_ok :: "kmem \<Rightarrow> bool" where
  "alloc_ok h = (\<forall>a. brk h \<le> a \<longrightarrow> objs h a = None)"

text \<open>\<open>free\<close> applied to each chunk of a list, first to last.\<close>

fun free_all :: "kmem \<Rightarrow> addr list \<Rightarrow> kmem" where
  "free_all h [] = h"
| "free_all h (a # as) = free_all (free h a) as"

text \<open>
  The state of a buffer that is written by \<open>netmap_config_write\<close> only: both pointers
  are \<open>NULL\<close> with a zero write offset, or the write pointer is on an allocated chunk of
  at most the default size, with the write offset inside it. \<open>room_left\<close> is the number
  of bytes such a buffer can still take: the rest of the chunk being written and the
  default size for every chunk that may still be allocated.
\<close>

definition wr_inv :: "kmem \<Rightarrow> netmap_confbuf \<Rightarrow> bool" where
  "wr_inv h cb =
     (alloc_ok h \<and> n_data cb \<le> NM_CBDATAMAX \<and>
      (case writep cb of
         None \<Rightarrow> readp cb = None \<and> next_w cb = 0
       | Some w \<Rightarrow>
           readp cb \<noteq> None \<and> n_data cb \<noteq> 0 \<and>
           (case objs h w of
              None \<Rightarrow> False
            | Some wc \<Rightarrow>
                next_w cb \<le> d_size wc \<and> d_size wc \<le> NM_CBDATASIZ
                \<and> unat (d_size wc) \<le> d_alloc wc)))"

definition room_left :: "kmem \<Rightarrow> netmap_confbuf \<Rightarrow> nat" where
  "room_left h cb =
     (unat NM_CBDATAMAX - unat (n_data cb)) * unat NM_CBDATASIZ +
     (case writep cb of
        None \<Rightarrow> 0
      | Some w \<Rightarrow>
          (case objs h w of
             None \<Rightarrow> 0
           | Some wc \<Rightarrow> unat (d_size wc) - unat (next_w cb)))"

text \<open>
  The write offset is within the chunk being written. Every commit of at most the length
  that \<open>netmap_confbuf_pre_write\<close> has handed out keeps it so.
\<close>

definition next_w_within :: "kmem \<Rightarrow> netmap_confbuf \<Rightarrow> bool" where
  "next_w_within h cb =
     (case writep cb of
        None \<Rightarrow> True
      | Some w \<Rightarrow> (case objs h w of None \<Rightarrow> True | Some wc \<Rightarrow> next_w cb \<le> d_size wc))"

text \<open>
  The state of a buffer under any sequence of its calls: the chunks reachable from
  \<open>readp\<close> form a chain that ends, there are at most \<open>n_data\<close> of them, \<open>n_data\<close> is
  within the cap, and the write pointer, where it points to an allocated chunk, points
  into that chain.
\<close>

definition cb_inv :: "kmem \<Rightarrow> netmap_confbuf \<Rightarrow> bool" where
  "cb_inv h cb =
     (alloc_ok h \<and> n_data cb \<le> NM_CBDATAMAX \<and>
      (\<forall>w. writep cb = Some w \<longrightarrow> w < brk h) \<and>
      (\<exists>as. chain_path h (readp cb) as \<and> length as \<le> unat (n_data cb) \<and>
            (\<forall>w. writep cb = Some w \<longrightarrow> objs h w \<noteq> None \<longrightarrow> w \<in> set as)))"

text \<open>
  The read side. \<open>bytes_from h lo a\<close> are the bytes of chunk \<open>a\<close> from offset \<open>lo\<close> up to
  its size \<open>d_size\<close>; \<open>served h cb as\<close> are the bytes that \<open>netmap_confbuf_pre_read\<close>
  serves from this state on, in order: those of the head chunk from \<open>next_r\<close> on, then
  those of the chunks behind it. This is what the read side delivers, not what has been
  written: \<open>next_w\<close> plays no part in it, and in the chunk being written it goes on
  behind \<open>next_w\<close>, up to the size of the chunk. \<open>rd_inv\<close> says that \<open>as\<close> is the chain
  from \<open>readp\<close>, that the size of each chunk is within its allocation, that \<open>next_r\<close> is
  within the head chunk, and that no chunk behind the head is empty.
\<close>

definition chunk_sat :: "kmem \<Rightarrow> (nm_confbuf_data \<Rightarrow> bool) \<Rightarrow> addr \<Rightarrow> bool" where
  "chunk_sat h P a = (case objs h a of None \<Rightarrow> False | Some c \<Rightarrow> P c)"

definition bytes_from :: "kmem \<Rightarrow> nat \<Rightarrow> addr \<Rightarrow> 8 word list" where
  "bytes_from h lo a =
     (case objs h a of None \<Rightarrow> [] | Some c \<Rightarrow> map (d_data c) [lo ..< unat (d_size c)])"

definition served :: "kmem \<Rightarrow> netmap_confbuf \<Rightarrow> addr list \<Rightarrow> 8 word list" where
  "served h cb as =
     (case as of
        [] \<Rightarrow> []
      | a # rest \<Rightarrow> bytes_from h (unat (next_r cb)) a @ concat (map (bytes_from h 0) rest))"

definition rd_inv :: "kmem \<Rightarrow> netmap_confbuf \<Rightarrow> addr list \<Rightarrow> bool" where
  "rd_inv h cb as =
     (chain_path h (readp cb) as
      \<and> list_all (chunk_sat h (\<lambda>c. unat (d_size c) \<le> d_alloc c)) as
      \<and> (case as of
            [] \<Rightarrow> True
          | a # rest \<Rightarrow>
              chunk_sat h (\<lambda>c. next_r cb \<le> d_size c) a
              \<and> list_all (chunk_sat h (\<lambda>c. 0 < d_size c)) rest))"

text \<open>
  The state of a buffer that has only been filled by the write loop: the write-side state
  \<open>wr_inv\<close>, a chain \<open>as\<close> from \<open>readp\<close> of non-empty chunks whose sizes are within
  their allocations, \<open>next_r\<close> within the head chunk, and the write pointer on a chunk of
  the chain.
\<close>

definition fill_inv :: "kmem \<Rightarrow> netmap_confbuf \<Rightarrow> addr list \<Rightarrow> bool" where
  "fill_inv h cb as =
     (wr_inv h cb \<and> chain_path h (readp cb) as
      \<and> list_all (chunk_sat h (\<lambda>c. 0 < d_size c \<and> unat (d_size c) \<le> d_alloc c)) as
      \<and> (case readp cb of
            None \<Rightarrow> next_r cb = 0
          | Some r \<Rightarrow> chunk_sat h (\<lambda>c. next_r cb \<le> d_size c) r)
      \<and> (case writep cb of None \<Rightarrow> True | Some w \<Rightarrow> w \<in> set as))"

section \<open>The commit order as the specification words it\<close>

text \<open>
  The specification describes both commits as advancing the offset first and testing for
  exhaustion afterwards. These two definitions follow that wording; they are compared with
  \<open>netmap_confbuf_post_write\<close> and \<open>netmap_confbuf_post_read\<close> above.
\<close>

definition post_write_advance_first ::
  "kmem \<Rightarrow> netmap_confbuf \<Rightarrow> u_int \<Rightarrow> netmap_confbuf option" where
  "post_write_advance_first h cb sz =
     (case writep cb of
        None \<Rightarrow> None
      | Some w \<Rightarrow>
          (case objs h w of
             None \<Rightarrow> None
           | Some wc \<Rightarrow>
               let cb1 = cb\<lparr>next_w := next_w cb + sz\<rparr>
               in Some (if next_w cb1 = d_size wc
                        then cb1\<lparr>writep := d_chain wc, next_w := 0\<rparr> else cb1)))"

definition post_read_advance_first ::
  "kmem \<Rightarrow> netmap_confbuf \<Rightarrow> u_int \<Rightarrow> (kmem \<times> netmap_confbuf) option" where
  "post_read_advance_first h cb sz =
     (case readp cb of
        None \<Rightarrow> None
      | Some r \<Rightarrow>
          (case objs h r of
             None \<Rightarrow> None
           | Some rc \<Rightarrow>
               let cb1 = cb\<lparr>next_r := next_r cb + sz\<rparr>
               in Some (if next_r cb1 = d_size rc
                        then (free h r,
                              cb1\<lparr>readp := d_chain rc, next_r := 0, n_data := n_data cb1 - 1\<rparr>)
                        else (h, cb1))))"

section \<open>Concrete states\<close>

text \<open>
  An empty memory with room for the allocations of the examples, and the memory and the
  buffer after \<open>netmap_confbuf_pre_write\<close> of 1024 bytes on the empty buffer.
\<close>

definition mem_empty :: kmem where
  "mem_empty = \<lparr>objs = Map.empty, brk = 1, avail = 65536, junk = (\<lambda>a i. 0x5A)\<rparr>"

definition mem_one :: kmem where
  "mem_one =
     \<lparr>objs = [1 \<mapsto> \<lparr>d_chain = None, d_size = 1024, d_data = (\<lambda>i. 0x5A), d_alloc = 1024\<rparr>],
      brk = 2, avail = 64496, junk = (\<lambda>a i. 0x5A)\<rparr>"

definition buf_one :: netmap_confbuf where
  "buf_one = \<lparr>readp = Some 1, writep = Some 1, n_data = 1, next_w = 0, next_r = 0\<rparr>"

text \<open>A memory large enough for chunks of the largest size a \<open>u_int\<close> can hold.\<close>

definition mem_huge :: kmem where
  "mem_huge = \<lparr>objs = Map.empty, brk = 1, avail = 2 ^ 40, junk = (\<lambda>a i. 0)\<rparr>"

text \<open>
  Four chunks are written and committed in full, the first one is read and released, and
  a fifth chunk is prepared: with chunks of the default size, and with chunks of the
  largest size.
\<close>

definition calls_default :: "cb_call list" where
  "calls_default =
     [Pre_write 1024 True, Post_write 1024, Pre_write 1024 True, Post_write 1024,
      Pre_write 1024 True, Post_write 1024, Pre_write 1024 True, Post_write 1024,
      Pre_read 1024, Post_read 1024, Pre_read 1024, Post_read 1024,
      Pre_write 1024 True]"

definition calls_largest :: "cb_call list" where
  "calls_largest =
     [Pre_write 0xFFFFFFFF False, Post_write 0xFFFFFFFF,
      Pre_write 0xFFFFFFFF False, Post_write 0xFFFFFFFF,
      Pre_write 0xFFFFFFFF False, Post_write 0xFFFFFFFF,
      Pre_write 0xFFFFFFFF False, Post_write 0xFFFFFFFF,
      Pre_read 0xFFFFFFFF, Post_read 0xFFFFFFFF, Pre_read 0xFFFFFFFF, Post_read 0xFFFFFFFF,
      Pre_write 0xFFFFFFFF False]"

text \<open>
  A channel whose output buffer holds one chunk that has been read to its end, and a read
  request for 16 bytes.
\<close>

definition chan_drained :: netmap_config where
  "chan_drained = \<lparr>buf0 = zero_confbuf, buf1 = buf_one\<lparr>next_w := 1024, next_r := 1024\<rparr>\<rparr>"

definition uio_read16 :: uio where
  "uio_read16 = \<lparr>uio_rw = UIO_READ, uio_resid = 16, uio_mem = replicate 16 0, uio_out = []\<rparr>"

text \<open>A memory whose only chunk starts with a NUL byte followed by the letter A.\<close>

definition mem_nul :: kmem where
  "mem_nul =
     \<lparr>objs = [1 \<mapsto> \<lparr>d_chain = None, d_size = 1024,
                    d_data = (\<lambda>i. if i = 0 then 0 else 0x41), d_alloc = 1024\<rparr>],
      brk = 2, avail = 64496, junk = (\<lambda>a i. 0x5A)\<rparr>"

text \<open>
  The channel with both buffers empty, and a write request for 1025 bytes of which only
  the first 1024 lie in valid caller memory.
\<close>

definition chan_zero :: netmap_config where
  "chan_zero = \<lparr>buf0 = zero_confbuf, buf1 = zero_confbuf\<rparr>"

definition uio_short :: uio where
  "uio_short =
     \<lparr>uio_rw = UIO_WRITE, uio_resid = 1025, uio_mem = replicate 1024 0x41, uio_out = []\<rparr>"

text \<open>A write request for one byte that lies in invalid caller memory.\<close>

definition uio_invalid :: uio where
  "uio_invalid = \<lparr>uio_rw = UIO_WRITE, uio_resid = 1, uio_mem = [], uio_out = []\<rparr>"

text \<open>
  A memory with one chunk of the input buffer and one chunk of the output buffer, and the
  channel made of these two buffers.
\<close>

definition mem_two :: kmem where
  "mem_two =
     \<lparr>objs = [1 \<mapsto> \<lparr>d_chain = None, d_size = 1024, d_data = (\<lambda>i. 0x41), d_alloc = 1024\<rparr>,
              2 \<mapsto> \<lparr>d_chain = None, d_size = 1024, d_data = (\<lambda>i. 0x7B), d_alloc = 1024\<rparr>],
      brk = 3, avail = 63456, junk = (\<lambda>a i. 0x5A)\<rparr>"

definition chan_both :: netmap_config where
  "chan_both =
     \<lparr>buf0 = buf_one\<lparr>next_w := 2\<rparr>,
      buf1 = \<lparr>readp = Some 2, writep = Some 2, n_data = 1, next_w = 5, next_r = 0\<rparr>\<rparr>"

text \<open>A write request for 4097 bytes, all of them in valid caller memory.\<close>

definition uio_big :: uio where
  "uio_big =
     \<lparr>uio_rw = UIO_WRITE, uio_resid = 4097, uio_mem = replicate 4097 0x41, uio_out = []\<rparr>"

text \<open>A write request for \<open>2 ^ 32\<close> bytes, all of them in valid caller memory.\<close>

definition uio_4g :: uio where
  "uio_4g =
     \<lparr>uio_rw = UIO_WRITE, uio_resid = 2 ^ 32, uio_mem = replicate (2 ^ 32) 0x41, uio_out = []\<rparr>"

text \<open>
  A memory with a full chunk that ends with the byte \<open>B\<close>, followed by a chunk that
  starts with \<open>C\<close>, and a buffer that has read all but the last byte of the first chunk.
\<close>

definition mem_pair :: kmem where
  "mem_pair =
     \<lparr>objs = [1 \<mapsto> \<lparr>d_chain = Some 2, d_size = 1024,
                    d_data = (\<lambda>i. if i = 1023 then 0x42 else 0x41), d_alloc = 1024\<rparr>,
              2 \<mapsto> \<lparr>d_chain = None, d_size = 1024, d_data = (\<lambda>i. 0x43), d_alloc = 1024\<rparr>],
      brk = 3, avail = 63456, junk = (\<lambda>a i. 0x5A)\<rparr>"

definition buf_pair :: netmap_confbuf where
  "buf_pair = \<lparr>readp = Some 1, writep = Some 2, n_data = 2, next_w = 1, next_r = 1023\<rparr>"

section \<open>Basic facts about the operations\<close>

lemmas model_defs =
  netmap_confbuf_pre_write_def pre_write_expand_def netmap_confbuf_post_write_def
  netmap_confbuf_pre_read_def netmap_confbuf_post_read_def netmap_confbuf_peek_def
  netmap_confbuf_consume_def netmap_confbuf_destroy_def uiomove_def malloc_def free_def
  store_def clip_def NM_CBDATASIZ_def NM_CBDATAMAX_def sizeof_nm_confbuf_data_def
  zero_confbuf_def ENOMEM_def EFAULT_def

lemma malloc_SomeD:
  "malloc h n = Some (a, h0) \<Longrightarrow>
   a = brk h \<and> n \<le> avail h \<and>
   h0 = h\<lparr>objs := (objs h)(brk h \<mapsto> \<lparr>d_chain = None, d_size = 0, d_data = junk h (brk h),
                                       d_alloc = n - sizeof_nm_confbuf_data\<rparr>),
          brk := Suc (brk h), avail := avail h - n\<rparr>"
  by (auto simp: malloc_def split: if_splits)

lemma pre_write_expand_SomeE:
  assumes "pre_write_expand h cb d req_size avl = Some (Some ((a, b), s), h1, cb1)"
  obtains sz h0 where
    "n_data cb < NM_CBDATAMAX"
    "sz = (if NM_CBDATASIZ < req_size \<and> \<not> avl then req_size else NM_CBDATASIZ)"
    "malloc h (sizeof_nm_confbuf_data + unat sz) = Some (a, h0)"
    "b = 0" "s = clip sz req_size"
    "h1 = (case d of None \<Rightarrow> store h0 a (\<lambda>c. c\<lparr>d_size := sz, d_chain := None\<rparr>)
           | Some w \<Rightarrow> store (store h0 a (\<lambda>c. c\<lparr>d_size := sz, d_chain := None\<rparr>)) w
                        (\<lambda>c. c\<lparr>d_size := next_w cb, d_chain := Some a\<rparr>))"
    "cb1 = (if readp cb = None then cb\<lparr>n_data := n_data cb + 1, readp := Some a, writep := Some a\<rparr>
            else cb\<lparr>n_data := n_data cb + 1\<rparr>)"
  using assms
  by (auto simp: pre_write_expand_def Let_def not_le split: if_splits option.splits)

lemma pre_write_SomeE:
  assumes "netmap_confbuf_pre_write h cb req_size avl = Some (Some ((a, b), s), h1, cb1)"
  obtains (room) dc where "writep cb = Some a" "objs h a = Some dc" "b = next_w cb"
      "0 < d_size dc - next_w cb" "req_size \<le> d_size dc - next_w cb \<or> avl"
      "s = clip (d_size dc - next_w cb) req_size" "h1 = h" "cb1 = cb"
  | (first) "writep cb = None"
      "pre_write_expand h cb None req_size avl = Some (Some ((a, b), s), h1, cb1)"
  | (grow) w dc where "writep cb = Some w" "objs h w = Some dc"
      "\<not> (0 < d_size dc - next_w cb \<and> (req_size \<le> d_size dc - next_w cb \<or> avl))"
      "pre_write_expand h cb (Some w) req_size avl = Some (Some ((a, b), s), h1, cb1)"
proof (cases "writep cb")
  case None
  with assms show ?thesis
    by (intro first) (simp_all add: netmap_confbuf_pre_write_def)
next
  case (Some w)
  show ?thesis
  proof (cases "objs h w")
    case None
    with Some assms show ?thesis
      by (simp add: netmap_confbuf_pre_write_def)
  next
    case (Some dc)
    show ?thesis
    proof (cases "0 < d_size dc - next_w cb \<and> (req_size \<le> d_size dc - next_w cb \<or> avl)")
      case True
      with Some \<open>writep cb = Some w\<close> assms
      have "a = w \<and> b = next_w cb \<and> s = clip (d_size dc - next_w cb) req_size \<and> h1 = h \<and> cb1 = cb"
        by (auto simp: netmap_confbuf_pre_write_def Let_def)
      with True Some \<open>writep cb = Some w\<close> show ?thesis
        by (intro room [of dc]) simp_all
    next
      case False
      with Some \<open>writep cb = Some w\<close> assms
      have "pre_write_expand h cb (Some w) req_size avl = Some (Some ((a, b), s), h1, cb1)"
        by (simp add: netmap_confbuf_pre_write_def Let_def)
      with False Some \<open>writep cb = Some w\<close> show ?thesis
        by (intro grow [of w dc]) simp_all
    qed
  qed
qed

lemma post_write_eq:
  "writep cb = Some w \<Longrightarrow> objs h w = Some wc \<Longrightarrow>
   netmap_confbuf_post_write h cb sz =
     Some (if next_w cb = d_size wc then cb\<lparr>writep := d_chain wc, next_w := sz\<rparr>
           else cb\<lparr>next_w := next_w cb + sz\<rparr>)"
  by (simp add: netmap_confbuf_post_write_def Let_def)

lemma post_read_eq:
  "readp cb = Some r \<Longrightarrow> objs h r = Some rc \<Longrightarrow>
   netmap_confbuf_post_read h cb sz =
     Some (if next_r cb = d_size rc
           then (free h r, cb\<lparr>readp := d_chain rc, next_r := sz, n_data := n_data cb - 1\<rparr>)
           else (h, cb\<lparr>next_r := next_r cb + sz\<rparr>))"
  by (simp add: netmap_confbuf_post_read_def Let_def)

lemma writep_update_same: "writep cb = x \<Longrightarrow> cb\<lparr>writep := x\<rparr> = cb"
  by auto

lemma word_sub_pos_neq: "0 < (x::u_int) - y \<Longrightarrow> y \<noteq> x"
  by auto

lemma word_pred_less: "(n::u_int) \<noteq> 0 \<Longrightarrow> n - 1 < n"
  by (simp add: word_less_nat_alt unat_minus_one unat_gt_0)

lemma clip_le_req: "clip s req_size \<le> req_size"
  by (auto simp: clip_def)

lemma clip_le_avail: "clip s req_size \<le> s"
  by (auto simp: clip_def)

lemma clip_eq_req: "req_size \<le> s \<Longrightarrow> clip s req_size = req_size"
  by (auto simp: clip_def)

text \<open>
  Whether \<open>netmap_confbuf_pre_read\<close> returns \<open>NULL\<close> does not depend on the size asked
  for: the size is looked at only once a chunk with unread bytes has been found.
\<close>

lemma pre_read_loop_NULL_aux:
  assumes "pre_read_loop h d n sz = Some r"
  shows "fst r = None \<longrightarrow> (\<forall>sz'. pre_read_loop h d n sz' = Some (None, 0))"
proof (rule pre_read_loop.raw_induct
    [where P = "\<lambda>h d n sz r. fst r = None \<longrightarrow> (\<forall>sz'. pre_read_loop h d n sz' = Some (None, 0))",
      OF _ assms])
  fix self h d n sz r
  assume IH: "\<And>h d n sz r. self h d n sz = Some r \<Longrightarrow>
                fst r = None \<longrightarrow> (\<forall>sz'. pre_read_loop h d n sz' = Some (None, 0))"
    and body: "(case d of None \<Rightarrow> Some (None, 0)
      | Some a \<Rightarrow>
          (case objs h a of None \<Rightarrow> None
          | Some dc \<Rightarrow>
              if n < d_size dc
              then let s = d_size dc - n
                   in Some (Some (a, n), if sz < s then sz else s)
              else self h (d_chain dc) 0 sz)) = Some r"
  show "fst r = None \<longrightarrow> (\<forall>sz'. pre_read_loop h d n sz' = Some (None, 0))"
  proof (cases d)
    case None
    then show ?thesis by (simp add: pre_read_loop.simps)
  next
    case (Some a)
    show ?thesis
    proof (cases "objs h a")
      case None
      with Some body show ?thesis by simp
    next
      case (Some dc)
      show ?thesis
      proof (cases "n < d_size dc")
        case True
        with Some \<open>d = Some a\<close> body show ?thesis by (auto simp: Let_def)
      next
        case False
        with Some \<open>d = Some a\<close> body have "self h (d_chain dc) 0 sz = Some r" by simp
        from IH [OF this]
        have "fst r = None \<longrightarrow> (\<forall>sz'. pre_read_loop h (d_chain dc) 0 sz' = Some (None, 0))" .
        with False Some \<open>d = Some a\<close> show ?thesis
          by (subst pre_read_loop.simps) simp
      qed
    qed
  qed
qed

lemma pre_read_loop_NULL:
  "pre_read_loop h d n sz = Some (None, z) \<Longrightarrow> pre_read_loop h d n sz' = Some (None, 0)"
  using pre_read_loop_NULL_aux [of h d n sz "(None, z)"] by simp

section \<open>The commit of a write\<close>

text \<open>
  Claim C2, as stated: \<open>netmap_confbuf_post_write\<close> advances \<open>next_w\<close> first and then,
  if the tail is exactly exhausted, rolls the write cursor to the successor with offset 0.
  The code does not: on the empty buffer, \<open>netmap_confbuf_pre_write\<close> of 1024 bytes
  allocates chunk 1 of 1024 bytes; committing all 1024 bytes leaves the cursor on chunk 1
  at offset 1024, where advancing first would move it to the successor (\<open>NULL\<close>) at
  offset 0.
\<close>

theorem post_write_not_advance_first:
  "netmap_confbuf_pre_write mem_empty zero_confbuf 1024 True
      = Some (Some ((1, 0), 1024), mem_one, buf_one)
   \<and> netmap_confbuf_post_write mem_one buf_one 1024 = Some (buf_one\<lparr>next_w := 1024\<rparr>)
   \<and> post_write_advance_first mem_one buf_one 1024
      = Some (buf_one\<lparr>writep := None, next_w := 0\<rparr>)
   \<and> netmap_confbuf_post_write mem_one buf_one 1024
      \<noteq> post_write_advance_first mem_one buf_one 1024"
  by (simp add: model_defs mem_empty_def mem_one_def buf_one_def post_write_advance_first_def
      Let_def word_le_nat_alt word_less_nat_alt)

text \<open>
  Claim C2, amended: \<open>netmap_confbuf_post_write\<close> first tests whether \<open>next_w\<close> equals
  the size of the current tail, which is the state a \<open>netmap_confbuf_pre_write\<close> that
  allocated a successor leaves behind, and if so rolls the write cursor to the successor
  with offset 0; then it advances \<open>next_w\<close> by \<open>size\<close>. The test precedes the advance:
  after a \<open>netmap_confbuf_pre_write\<close> that returned a region at offset \<open>b\<close> of chunk
  \<open>a\<close>, the commit leaves the write cursor on chunk \<open>a\<close> at offset \<open>b + size\<close>, also when
  this exhausts the chunk. The buffer is one whose pointers are both \<open>NULL\<close> with
  \<open>next_w = 0\<close>, or both set.
\<close>

theorem post_write_checks_before_advancing:
  assumes pre: "netmap_confbuf_pre_write h cb req_size avl = Some (Some ((a, b), s), h1, cb1)"
    and fresh: "objs h (brk h) = None"
    and empty: "writep cb = None \<longrightarrow> next_w cb = 0" "readp cb = None \<longleftrightarrow> writep cb = None"
    and tail: "writep cb1 = Some w" "objs h1 w = Some wc"
  shows "netmap_confbuf_post_write h1 cb1 sz =
           Some (if next_w cb1 = d_size wc then cb1\<lparr>writep := d_chain wc, next_w := sz\<rparr>
                 else cb1\<lparr>next_w := next_w cb1 + sz\<rparr>)
         \<and> netmap_confbuf_post_write h1 cb1 sz = Some (cb1\<lparr>writep := Some a, next_w := b + sz\<rparr>)"
proof
  show "netmap_confbuf_post_write h1 cb1 sz =
           Some (if next_w cb1 = d_size wc then cb1\<lparr>writep := d_chain wc, next_w := sz\<rparr>
                 else cb1\<lparr>next_w := next_w cb1 + sz\<rparr>)"
    using tail by (rule post_write_eq)
  from pre show "netmap_confbuf_post_write h1 cb1 sz = Some (cb1\<lparr>writep := Some a, next_w := b + sz\<rparr>)"
  proof (cases rule: pre_write_SomeE)
    case (room dc)
    then have "next_w cb1 \<noteq> d_size dc" by (auto dest: word_sub_pos_neq)
    with room post_write_eq [of cb1 a h1 dc sz] show ?thesis
      by (simp add: writep_update_same)
  next
    case first
    from first(2) show ?thesis
    proof (cases rule: pre_write_expand_SomeE)
      case (1 sz' h0)
      from 1(3) have a: "a = brk h"
        and h0: "objs h0 = (objs h)(a \<mapsto> \<lparr>d_chain = None, d_size = 0, d_data = junk h (brk h),
                   d_alloc = sizeof_nm_confbuf_data + unat sz' - sizeof_nm_confbuf_data\<rparr>)"
        by (auto dest!: malloc_SomeD)
      have cb1: "cb1 = cb\<lparr>n_data := n_data cb + 1, readp := Some a, writep := Some a\<rparr>"
        using 1(7) first(1) empty by simp
      have "objs h1 a = Some \<lparr>d_chain = None, d_size = sz', d_data = junk h (brk h),
                   d_alloc = sizeof_nm_confbuf_data + unat sz' - sizeof_nm_confbuf_data\<rparr>"
        using 1(6) h0 by (simp add: store_def)
      moreover have "next_w cb1 \<noteq> sz'"
        using cb1 first(1) empty 1(2) by (auto simp: NM_CBDATASIZ_def)
      ultimately show ?thesis
        using cb1 1(4) first(1) empty post_write_eq [of cb1 a h1 _ sz] by simp
    qed
  next
    case (grow w' dc)
    from grow(4) show ?thesis
    proof (cases rule: pre_write_expand_SomeE)
      case (1 sz' h0)
      from 1(3) have a: "a = brk h"
        and h0: "objs h0 = (objs h)(a \<mapsto> \<lparr>d_chain = None, d_size = 0, d_data = junk h (brk h),
                   d_alloc = sizeof_nm_confbuf_data + unat sz' - sizeof_nm_confbuf_data\<rparr>)"
        by (auto dest!: malloc_SomeD)
      have wa: "w' \<noteq> a" using a fresh grow(2) by auto
      have cb1: "cb1 = cb\<lparr>n_data := n_data cb + 1\<rparr>"
        using 1(7) grow(1) empty by simp
      have "objs h1 w' = Some (dc\<lparr>d_size := next_w cb, d_chain := Some a\<rparr>)"
        using 1(6) h0 wa grow(2) by (simp add: store_def)
      then show ?thesis
        using cb1 1(4) grow(1) post_write_eq [of cb1 w' h1 _ sz] by simp
    qed
  qed
qed

theorem post_write_checks_before_advancing_witness:
  "netmap_confbuf_pre_write mem_empty zero_confbuf 1024 True
      = Some (Some ((1, 0), 1024), mem_one, buf_one)
   \<and> objs mem_empty (brk mem_empty) = None
   \<and> writep buf_one = Some 1
   \<and> objs mem_one 1 = Some \<lparr>d_chain = None, d_size = 1024, d_data = (\<lambda>i. 0x5A), d_alloc = 1024\<rparr>
   \<and> netmap_confbuf_post_write mem_one buf_one 1024
      = Some (buf_one\<lparr>writep := Some 1, next_w := 0 + 1024\<rparr>)"
proof -
  have pre: "netmap_confbuf_pre_write mem_empty zero_confbuf 1024 True
      = Some (Some ((1, 0), 1024), mem_one, buf_one)"
    by (simp add: model_defs mem_empty_def mem_one_def buf_one_def Let_def
        word_le_nat_alt word_less_nat_alt)
  have fresh: "objs mem_empty (brk mem_empty) = None"
    by (simp add: mem_empty_def)
  have empty: "writep zero_confbuf = None \<longrightarrow> next_w zero_confbuf = 0"
      "readp zero_confbuf = None \<longleftrightarrow> writep zero_confbuf = None"
    by (simp_all add: zero_confbuf_def)
  have tail: "writep buf_one = Some 1"
    "objs mem_one 1 = Some \<lparr>d_chain = None, d_size = 1024, d_data = (\<lambda>i. 0x5A), d_alloc = 1024\<rparr>"
    by (simp_all add: buf_one_def mem_one_def)
  from post_write_checks_before_advancing [OF pre fresh empty tail, of 1024]
  show ?thesis using pre fresh tail by (simp add: buf_one_def)
qed

section \<open>The commit of a read\<close>

text \<open>
  Claim C3, as stated: on the call of \<open>netmap_confbuf_post_read\<close> in which \<open>next_r\<close>
  reaches the size of the head chunk, the chunk is freed, the head moves on, \<open>next_r\<close> is
  reset and \<open>n_data\<close> is decremented. The code does not: with one chunk of 1024 bytes
  holding 1024 committed bytes, \<open>netmap_confbuf_pre_read\<close> hands out all of them and the
  commit of 1024 bytes keeps the chunk allocated, \<open>readp\<close> on it and \<open>n_data\<close> at 1,
  where advancing first would free it and leave \<open>n_data\<close> at 0.
\<close>

theorem post_read_not_advance_first:
  "netmap_confbuf_pre_read mem_one (buf_one\<lparr>next_w := 1024\<rparr>) 1024 = Some (Some (1, 0), 1024)
   \<and> netmap_confbuf_post_read mem_one (buf_one\<lparr>next_w := 1024\<rparr>) 1024
       = Some (mem_one, buf_one\<lparr>next_w := 1024, next_r := 1024\<rparr>)
   \<and> post_read_advance_first mem_one (buf_one\<lparr>next_w := 1024\<rparr>) 1024
       = Some (free mem_one 1, buf_one\<lparr>next_w := 1024, readp := None, next_r := 0, n_data := 0\<rparr>)
   \<and> objs (free mem_one 1) 1 = None \<and> objs mem_one 1 \<noteq> None"
  by (simp add: model_defs mem_one_def buf_one_def post_read_advance_first_def Let_def
      pre_read_loop.simps word_le_nat_alt word_less_nat_alt)

text \<open>
  Claim C3, amended: \<open>netmap_confbuf_post_read\<close> first tests whether \<open>next_r\<close> already
  equals the size of the head chunk, that is, whether an earlier commit drained it. If so
  the head chunk is freed, \<open>readp\<close> moves to its successor, \<open>next_r\<close> restarts from 0 and
  \<open>n_data\<close> is decremented (it strictly decreases unless it was 0); then \<open>next_r\<close> is
  advanced by \<open>size\<close>. If not, only \<open>next_r\<close> is advanced: the commit that drains a
  chunk frees nothing and leaves \<open>n_data\<close> as it is; the chunk is released by the next
  commit.
\<close>

theorem post_read_frees_on_next_commit:
  assumes "readp cb = Some r" and "objs h r = Some rc"
  shows "if next_r cb = d_size rc
         then netmap_confbuf_post_read h cb sz =
                Some (free h r, cb\<lparr>readp := d_chain rc, next_r := sz, n_data := n_data cb - 1\<rparr>)
              \<and> objs (free h r) r = None
              \<and> (n_data cb - 1 < n_data cb \<or> n_data cb = 0)
         else netmap_confbuf_post_read h cb sz = Some (h, cb\<lparr>next_r := next_r cb + sz\<rparr>)"
  using assms by (auto simp: post_read_eq free_def word_pred_less)

theorem post_read_frees_on_next_commit_witness:
  "readp (buf_one\<lparr>next_r := 1024\<rparr>) = Some 1
   \<and> objs mem_one 1 = Some \<lparr>d_chain = None, d_size = 1024, d_data = (\<lambda>i. 0x5A), d_alloc = 1024\<rparr>
   \<and> netmap_confbuf_post_read mem_one (buf_one\<lparr>next_r := 1024\<rparr>) 7
       = Some (free mem_one 1, buf_one\<lparr>next_r := 1024, readp := None, next_r := 7, n_data := 1 - 1\<rparr>)
   \<and> netmap_confbuf_post_read mem_one buf_one 1024 = Some (mem_one, buf_one\<lparr>next_r := 0 + 1024\<rparr>)"
proof -
  have r: "readp (buf_one\<lparr>next_r := 1024\<rparr>) = Some 1" "readp buf_one = Some 1"
    by (simp_all add: buf_one_def)
  have c: "objs mem_one 1 = Some \<lparr>d_chain = None, d_size = 1024, d_data = (\<lambda>i. 0x5A), d_alloc = 1024\<rparr>"
    by (simp add: mem_one_def)
  from post_read_frees_on_next_commit [OF r(1) c, of 7]
       post_read_frees_on_next_commit [OF r(2) c, of 1024]
  show ?thesis using r c by (simp add: buf_one_def)
qed

section \<open>The region handed out by a write preparation\<close>

text \<open>
  Claim C6, as stated: a successful \<open>netmap_confbuf_pre_write\<close> never returns more than
  was asked for, and the total writable capacity handed out across a buffer's lifetime
  never exceeds the segment cap times the maximum per-segment size. The second part fails:
  chunks released by reads are replaced by new ones. With chunks of the default size, five
  regions of 1024 bytes are handed out, 5120 bytes against a bound of 4 times 1024; with
  chunks of the largest size a \<open>u_int\<close> can express, five regions of that size are handed
  out, against a bound of four times that size.
\<close>

theorem handed_out_exceeds_cap:
  "map_option fst (cb_run mem_empty zero_confbuf calls_default) = Some 5120
   \<and> unat NM_CBDATAMAX * unat NM_CBDATASIZ < 5120
   \<and> map_option fst (cb_run mem_huge zero_confbuf calls_largest) = Some 21474836475
   \<and> unat NM_CBDATAMAX * unat (0xFFFFFFFF :: u_int) < 21474836475"
  by (simp add: model_defs mem_empty_def mem_huge_def calls_default_def calls_largest_def Let_def
      pre_read_loop.simps word_le_nat_alt word_less_nat_alt)

lemma unat_clip_sub:
  "(n::u_int) \<le> m \<Longrightarrow> unat n + unat (clip (m - n) r) \<le> unat m"
proof -
  assume le: "n \<le> m"
  then have "unat (m - n) = unat m - unat n" by (simp add: unat_sub)
  moreover have "unat (clip (m - n) r) \<le> unat (m - n)"
    using clip_le_avail [of "m - n" r] by (simp add: word_le_nat_alt)
  moreover from le have "unat n \<le> unat m" by (simp add: word_le_nat_alt)
  ultimately show ?thesis by simp
qed

text \<open>
  Claim C6, amended: for every buffer state and every requested size, a successful
  \<open>netmap_confbuf_pre_write\<close> returns a region whose length never exceeds the requested
  size (and equals it when \<open>avl_size\<close> is \<open>NULL\<close>); the region lies in one allocated
  chunk, and where the write offset of the state is within the chunk being written
  (\<open>next_w_within\<close>), the region ends within the size of its chunk: offset plus length,
  as natural numbers, is at most \<open>d_size\<close>. No bound is claimed on the total handed out
  over the lifetime of a buffer.
\<close>

theorem pre_write_region_bounded:
  assumes pre: "netmap_confbuf_pre_write h cb req_size avl = Some (Some ((a, b), s), h1, cb1)"
    and fresh: "objs h (brk h) = None"
  shows "s \<le> req_size \<and> (avl \<or> s = req_size)
         \<and> (\<exists>c. objs h1 a = Some c
                \<and> (next_w_within h cb \<longrightarrow> unat b + unat s \<le> unat (d_size c)))"
  using pre
proof (cases rule: pre_write_SomeE)
  case (room dc)
  then have "next_w_within h cb \<Longrightarrow> unat b + unat s \<le> unat (d_size dc)"
    by (auto simp: next_w_within_def unat_clip_sub)
  with room show ?thesis
    by (auto simp: clip_le_req clip_le_avail clip_eq_req)
next
  case first
  from first(2) show ?thesis
  proof (cases rule: pre_write_expand_SomeE)
    case (1 sz' h0)
    from 1(3) have "objs h0 a = Some \<lparr>d_chain = None, d_size = 0, d_data = junk h (brk h),
                   d_alloc = sizeof_nm_confbuf_data + unat sz' - sizeof_nm_confbuf_data\<rparr>"
      by (auto dest!: malloc_SomeD)
    with 1(6) obtain c where c: "objs h1 a = Some c" "d_size c = sz'"
      by (simp add: store_def)
    have "s \<le> req_size" "s \<le> sz'"
      using 1(5) by (simp_all add: clip_le_req clip_le_avail)
    moreover have "avl \<or> s = req_size"
      using 1(2,5) by (auto simp: clip_def)
    ultimately show ?thesis
      using 1(4) c by (simp add: word_le_nat_alt)
  qed
next
  case (grow w dc)
  from grow(4) show ?thesis
  proof (cases rule: pre_write_expand_SomeE)
    case (1 sz' h0)
    from 1(3) have a: "a = brk h"
      and "objs h0 a = Some \<lparr>d_chain = None, d_size = 0, d_data = junk h (brk h),
                   d_alloc = sizeof_nm_confbuf_data + unat sz' - sizeof_nm_confbuf_data\<rparr>"
      by (auto dest!: malloc_SomeD)
    moreover have "w \<noteq> a" using a fresh grow(2) by auto
    ultimately obtain c where c: "objs h1 a = Some c" "d_size c = sz'"
      using 1(6) by (simp add: store_def)
    have "s \<le> req_size" "s \<le> sz'"
      using 1(5) by (simp_all add: clip_le_req clip_le_avail)
    moreover have "avl \<or> s = req_size"
      using 1(2,5) by (auto simp: clip_def)
    ultimately show ?thesis
      using 1(4) c by (simp add: word_le_nat_alt)
  qed
qed

theorem pre_write_region_bounded_witness:
  "netmap_confbuf_pre_write mem_one (buf_one\<lparr>next_w := 1000\<rparr>) 100 True
      = Some (Some ((1, 1000), 24), mem_one, buf_one\<lparr>next_w := 1000\<rparr>)
   \<and> objs mem_one (brk mem_one) = None
   \<and> next_w_within mem_one (buf_one\<lparr>next_w := 1000\<rparr>)
   \<and> (24 :: u_int) \<le> 100
   \<and> (\<exists>c. objs mem_one 1 = Some c
          \<and> unat (1000 :: u_int) + unat (24 :: u_int) \<le> unat (d_size c))"
proof -
  have pre: "netmap_confbuf_pre_write mem_one (buf_one\<lparr>next_w := 1000\<rparr>) 100 True
      = Some (Some ((1, 1000), 24), mem_one, buf_one\<lparr>next_w := 1000\<rparr>)"
    by (simp add: model_defs mem_one_def buf_one_def Let_def word_le_nat_alt word_less_nat_alt)
  have fresh: "objs mem_one (brk mem_one) = None"
    by (simp add: mem_one_def)
  have within: "next_w_within mem_one (buf_one\<lparr>next_w := 1000\<rparr>)"
    by (simp add: next_w_within_def mem_one_def buf_one_def word_le_nat_alt)
  note t = pre_write_region_bounded [OF pre fresh]
  from t [THEN conjunct2, THEN conjunct2] within
  have "\<exists>c. objs mem_one 1 = Some c
          \<and> unat (1000 :: u_int) + unat (24 :: u_int) \<le> unat (d_size c)"
    by blast
  with t [THEN conjunct1] pre fresh within show ?thesis by (intro conjI)
qed

text \<open>
  The condition on the write offset is needed. A commit of more bytes than were handed out
  leaves \<open>next_w\<close> behind the size of the chunk; the difference of the two then wraps
  around, and the next region begins behind the end of the chunk. The states that
  \<open>netmap_config_write\<close> produces satisfy the condition.
\<close>

lemma pre_write_region_outside_chunk:
  "netmap_confbuf_pre_write mem_one (buf_one\<lparr>next_w := 2000\<rparr>) 100 True
      = Some (Some ((1, 2000), 100), mem_one, buf_one\<lparr>next_w := 2000\<rparr>)
   \<and> \<not> next_w_within mem_one (buf_one\<lparr>next_w := 2000\<rparr>)"
  by (simp add: model_defs mem_one_def buf_one_def Let_def word_le_nat_alt word_less_nat_alt
      next_w_within_def)

lemma wr_inv_next_w_within: "wr_inv h cb \<Longrightarrow> next_w_within h cb"
  by (auto simp: wr_inv_def next_w_within_def split: option.splits)

section \<open>Reading from an empty output buffer\<close>

text \<open>
  Claim C7: when the output buffer is empty, that is, \<open>netmap_confbuf_pre_read\<close> returns
  \<open>NULL\<close> with size 0 on it, \<open>netmap_config_read\<close> returns 0 (success) and leaves the
  transport, the memory and the channel as they were.
\<close>

theorem config_read_empty_output:
  assumes "netmap_confbuf_pre_read h (buf1 c) sz = Some (None, z)"
  shows "netmap_config_read h c uio = Some (0, h, c, uio)"
proof (cases "0 < uio_resid uio")
  case False
  then show ?thesis
    by (simp add: netmap_config_read_def netmap_config_parse_def config_read_loop.simps)
next
  case True
  from assms have "netmap_confbuf_pre_read h (buf1 c) (of_nat (uio_resid uio)) = Some (None, 0)"
    unfolding netmap_confbuf_pre_read_def by (rule pre_read_loop_NULL)
  with True show ?thesis
    by (simp add: netmap_config_read_def netmap_config_parse_def config_read_loop.simps)
qed

theorem config_read_empty_output_witness:
  "netmap_confbuf_pre_read mem_one (buf1 chan_drained) 1 = Some (None, 0)
   \<and> netmap_config_read mem_one chan_drained uio_read16 = Some (0, mem_one, chan_drained, uio_read16)"
proof -
  have e: "netmap_confbuf_pre_read mem_one (buf1 chan_drained) 1 = Some (None, 0)"
    by (simp add: netmap_confbuf_pre_read_def chan_drained_def buf_one_def mem_one_def
        pre_read_loop.simps)
  from config_read_empty_output [OF e] show ?thesis
    using e by simp
qed

section \<open>The value returned by peek\<close>

text \<open>
  Claim C10: \<open>netmap_confbuf_peek\<close> returns the integer 0 when the stream is empty
  (\<open>netmap_confbuf_pre_read\<close> returns \<open>NULL\<close>), and it returns the integer 0 when the next
  unread byte is 0. The two cases give the same return value and leave the state
  unchanged, so the return value alone does not tell them apart.
\<close>

theorem peek_zero_ambiguous:
  assumes "netmap_confbuf_pre_read h cb 1 = Some (None, z)"
    and "netmap_confbuf_pre_read h' cb' 1 = Some (Some (a, n), z')"
    and "objs h' a = Some c" and "unat n < d_alloc c" and "d_data c (unat n) = 0"
  shows "netmap_confbuf_peek h cb = Some (0, h, cb)
         \<and> netmap_confbuf_peek h' cb' = Some (0, h', cb')"
  using assms by (simp add: netmap_confbuf_peek_def)

theorem peek_zero_ambiguous_witness:
  "netmap_confbuf_pre_read mem_empty zero_confbuf 1 = Some (None, 0)
   \<and> netmap_confbuf_pre_read mem_nul buf_one 1 = Some (Some (1, 0), 1)
   \<and> netmap_confbuf_peek mem_empty zero_confbuf = Some (0, mem_empty, zero_confbuf)
   \<and> netmap_confbuf_peek mem_nul buf_one = Some (0, mem_nul, buf_one)"
proof -
  have e: "netmap_confbuf_pre_read mem_empty zero_confbuf 1 = Some (None, 0)"
    by (simp add: netmap_confbuf_pre_read_def zero_confbuf_def pre_read_loop.simps)
  have n: "netmap_confbuf_pre_read mem_nul buf_one 1 = Some (Some (1, 0), 1)"
    by (simp add: netmap_confbuf_pre_read_def buf_one_def mem_nul_def pre_read_loop.simps
        word_le_nat_alt word_less_nat_alt)
  have c: "objs mem_nul 1 = Some \<lparr>d_chain = None, d_size = 1024,
                    d_data = (\<lambda>i. if i = 0 then 0 else 0x41), d_alloc = 1024\<rparr>"
    by (simp add: mem_nul_def)
  from peek_zero_ambiguous [OF e n c] show ?thesis
    using e n by simp
qed

section \<open>Writing and then reading back\<close>

lemmas eval_defs =
  model_defs Let_def pre_read_loop.simps config_write_loop.simps config_read_loop.simps
  destroy_loop.simps word_le_nat_alt word_less_nat_alt netmap_config_write_def
  netmap_config_read_def netmap_config_parse_def netmap_config_uninit_def

text \<open>
  Claim C1 says that writes of at most 4 times 1024 bytes in total are read back exactly.
  The code reads past what was written: \<open>netmap_confbuf_pre_read\<close> bounds a region by the
  size of the chunk, and the size of the chunk being written is its full capacity, whatever
  \<open>next_w\<close> is. One write of the two bytes \<open>AB\<close> followed by a read with room for four
  bytes delivers four bytes, the last two being storage that was never written. Likewise
  the writes \<open>AB\<close> and \<open>CDEF\<close> are read back as eight bytes by a read with room for
  eight. At the level of the channel nothing is read back at all: \<open>netmap_config_write\<close>
  fills \<open>buf[0]\<close>, \<open>netmap_config_read\<close> drains \<open>buf[1]\<close>, and the parse step between
  them moves nothing.
\<close>

theorem round_trip_reads_unwritten_bytes:
  "round_trip mem_empty [[0x41, 0x42]] 4 = Some ([0], 0, [0x41, 0x42, 0x5A, 0x5A])
   \<and> round_trip mem_empty [[0x41, 0x42], [0x43, 0x44, 0x45, 0x46]] 8
        = Some ([0, 0], 0, [0x41, 0x42, 0x43, 0x44, 0x45, 0x46, 0x5A, 0x5A])"
  by (simp add: eval_defs round_trip_def read_back_def write_req_def mem_empty_def upt_rec)

section \<open>A write that fails in the transport\<close>

text \<open>
  Claim C5 says that after a failed transport move the buffer is consistent for a
  subsequent attempt and every allocated chunk stays reachable from the read pointer.
  A write of 1025 bytes whose last byte lies in invalid caller memory fills chunk 1,
  allocates chunk 2 and links it behind chunk 1, and fails with \<open>EFAULT\<close>; the write
  pointer stays on chunk 1. The next write, whether its own move fails or succeeds, finds
  chunk 1 full, allocates chunk 3 and overwrites the link of chunk 1: chunk 2 is still
  allocated and is counted in \<open>n_data\<close>, but no pointer leads to it any more, and
  destroying the channel does not free it.
\<close>

theorem failed_write_then_retry_leaks_chunk:
  "(case config_writes mem_empty chan_zero [uio_short] of
      None \<Rightarrow> False
    | Some (rets, h, c) \<Rightarrow>
        rets = [EFAULT] \<and> chain_path h (readp (buf0 c)) [1, 2] \<and> writep (buf0 c) = Some 1
        \<and> next_w (buf0 c) = 1024 \<and> n_data (buf0 c) = 2)
   \<and> (case config_writes mem_empty chan_zero [uio_short, uio_invalid] of
      None \<Rightarrow> False
    | Some (rets, h, c) \<Rightarrow>
        rets = [EFAULT, EFAULT] \<and> chain_path h (readp (buf0 c)) [1, 3] \<and> objs h 2 \<noteq> None
        \<and> writep (buf0 c) = Some 1 \<and> next_w (buf0 c) = 1024 \<and> n_data (buf0 c) = 3)
   \<and> (case config_writes mem_empty chan_zero [uio_short, write_req [0x42]] of
      None \<Rightarrow> False
    | Some (rets, h, c) \<Rightarrow>
        rets = [EFAULT, 0] \<and> chain_path h (readp (buf0 c)) [1, 3] \<and> objs h 2 \<noteq> None
        \<and> n_data (buf0 c) = 3
        \<and> (case netmap_config_uninit h c of
              None \<Rightarrow> False
            | Some (h', c') \<Rightarrow> objs h' 1 = None \<and> objs h' 3 = None \<and> objs h' 2 \<noteq> None))"
  by (simp add: eval_defs uio_short_def uio_invalid_def write_req_def mem_empty_def chan_zero_def)

section \<open>Chains of chunks\<close>

lemma objs_free: "objs (free h a) = (objs h)(a := None)"
  by (auto simp: free_def split: option.splits)

lemma brk_free: "brk (free h a) = brk h"
  by (simp add: free_def split: option.splits)

lemma objs_free_all: "objs (free_all h as) a = (if a \<in> set as then None else objs h a)"
  by (induction as arbitrary: h) (auto simp: objs_free)

lemma brk_free_all: "brk (free_all h as) = brk h"
  by (induction as arbitrary: h) (auto simp: brk_free)

lemma chain_path_cong:
  "(\<And>a. a \<in> set as \<Longrightarrow> objs h' a = objs h a) \<Longrightarrow> chain_path h' p as = chain_path h p as"
  by (induction as arbitrary: p) (auto split: option.splits)

lemma chain_path_allocated: "chain_path h p as \<Longrightarrow> a \<in> set as \<Longrightarrow> objs h a \<noteq> None"
  by (induction as arbitrary: p) (auto split: option.splits)

lemma chain_path_unique: "chain_path h p as \<Longrightarrow> chain_path h p bs \<Longrightarrow> as = bs"
proof (induction as arbitrary: p bs)
  case Nil
  then show ?case by (cases bs) auto
next
  case (Cons a as)
  then show ?case by (cases bs) (auto split: option.splits)
qed

lemma chain_path_suffix:
  "chain_path h p (xs @ a # ys) \<Longrightarrow> \<exists>c. objs h a = Some c \<and> chain_path h (d_chain c) ys"
  by (induction xs arbitrary: p) (auto split: option.splits)

lemma chain_path_distinct: "chain_path h p as \<Longrightarrow> distinct as"
proof (induction as arbitrary: p)
  case Nil
  then show ?case by simp
next
  case (Cons a as)
  from Cons.prems obtain c where c: "p = Some a" "objs h a = Some c" "chain_path h (d_chain c) as"
    by (cases "objs h a") auto
  have "a \<notin> set as"
  proof
    assume "a \<in> set as"
    then obtain xs ys where as: "as = xs @ a # ys" by (auto dest: split_list)
    with c(2,3) have "chain_path h (d_chain c) ys" by (auto dest: chain_path_suffix)
    with c(3) have "as = ys" by (rule chain_path_unique)
    with as show False by simp
  qed
  with Cons.IH [OF c(3)] show ?case by simp
qed

lemma destroy_loop_path:
  "chain_path h p as \<Longrightarrow> destroy_loop h p = Some (free_all h as)"
proof (induction as arbitrary: h p)
  case Nil
  then show ?case by (simp add: destroy_loop.simps)
next
  case (Cons a as)
  from Cons.prems obtain c where c: "p = Some a" "objs h a = Some c" "chain_path h (d_chain c) as"
    by (cases "objs h a") auto
  from chain_path_distinct [OF Cons.prems] have "a \<notin> set as" by simp
  then have "chain_path (free h a) (d_chain c) as = chain_path h (d_chain c) as"
    by (intro chain_path_cong) (auto simp: objs_free)
  with c(3) have "destroy_loop (free h a) (d_chain c) = Some (free_all (free h a) as)"
    by (intro Cons.IH) simp
  with c(1,2) show ?case
    by (subst destroy_loop.simps) simp
qed

lemma pre_read_zero: "netmap_confbuf_pre_read h zero_confbuf sz = Some (None, 0)"
  by (simp add: netmap_confbuf_pre_read_def zero_confbuf_def pre_read_loop.simps)


section \<open>A write discards the output buffer\<close>

text \<open>
  Claim C9: every \<open>netmap_config_write\<close> begins by discarding the whole output buffer
  before it accepts any input byte, and the input buffer is not affected by the discard.
  With \<open>os\<close> the chunks of the output buffer and \<open>is\<close> those of the input buffer, no
  chunk belonging to both: the discard frees every chunk of \<open>os\<close> and zeroes the output
  buffer; the chunks of the input buffer and its chain are as before; the write loop then
  runs on the unchanged input buffer in the memory without the output chunks; and whatever
  the call returns, the output buffer is the zeroed one, on which
  \<open>netmap_confbuf_pre_read\<close> finds nothing.
\<close>

theorem config_write_discards_output:
  assumes out: "chain_path h (readp (buf1 c)) os"
    and inp: "chain_path h (readp (buf0 c)) is"
    and sep: "set is \<inter> set os = {}"
  shows "netmap_confbuf_destroy h (buf1 c) = Some (free_all h os, zero_confbuf)
     \<and> (\<forall>a \<in> set os. objs (free_all h os) a = None)
     \<and> (\<forall>a \<in> set is. objs (free_all h os) a = objs h a)
     \<and> chain_path (free_all h os) (readp (buf0 c)) is
     \<and> netmap_config_write h c uio =
         map_option (\<lambda>(ret, h2, i2, uio2). (ret, h2, \<lparr>buf0 = i2, buf1 = zero_confbuf\<rparr>, uio2))
           (config_write_loop (free_all h os) (buf0 c) uio)
     \<and> (\<forall>ret h2 c2 uio2. netmap_config_write h c uio = Some (ret, h2, c2, uio2) \<longrightarrow>
           buf1 c2 = zero_confbuf \<and> netmap_confbuf_pre_read h2 (buf1 c2) sz = Some (None, 0))"
proof -
  have d: "netmap_confbuf_destroy h (buf1 c) = Some (free_all h os, zero_confbuf)"
    using destroy_loop_path [OF out] by (simp add: netmap_confbuf_destroy_def)
  have same: "\<forall>a \<in> set is. objs (free_all h os) a = objs h a"
    using sep by (auto simp: objs_free_all)
  then have "chain_path (free_all h os) (readp (buf0 c)) is = chain_path h (readp (buf0 c)) is"
    by (intro chain_path_cong) simp
  with inp have p: "chain_path (free_all h os) (readp (buf0 c)) is" by simp
  have w: "netmap_config_write h c uio =
         map_option (\<lambda>(ret, h2, i2, uio2). (ret, h2, \<lparr>buf0 = i2, buf1 = zero_confbuf\<rparr>, uio2))
           (config_write_loop (free_all h os) (buf0 c) uio)"
    using d by (auto simp: netmap_config_write_def split: option.splits)
  have e: "\<forall>ret h2 c2 uio2. netmap_config_write h c uio = Some (ret, h2, c2, uio2) \<longrightarrow>
           buf1 c2 = zero_confbuf \<and> netmap_confbuf_pre_read h2 (buf1 c2) sz = Some (None, 0)"
    unfolding w by (auto simp: pre_read_zero)
  have f: "\<forall>a \<in> set os. objs (free_all h os) a = None"
    by (simp add: objs_free_all)
  from d f same p w e show ?thesis by blast
qed


lemma config_write_loop_done: "uio_resid uio = 0 \<Longrightarrow> config_write_loop h i uio = Some (0, h, i, uio)"
  by (subst config_write_loop.simps) simp

theorem config_write_discards_output_witness:
  "chain_path mem_two (readp (buf1 chan_both)) [2]
   \<and> chain_path mem_two (readp (buf0 chan_both)) [1]
   \<and> netmap_confbuf_destroy mem_two (buf1 chan_both) = Some (free_all mem_two [2], zero_confbuf)
   \<and> objs (free_all mem_two [2]) 2 = None
   \<and> objs (free_all mem_two [2]) 1 = objs mem_two 1
   \<and> chain_path (free_all mem_two [2]) (readp (buf0 chan_both)) [1]
   \<and> netmap_config_write mem_two chan_both (write_req [])
        = Some (0, free_all mem_two [2], \<lparr>buf0 = buf0 chan_both, buf1 = zero_confbuf\<rparr>, write_req [])
   \<and> netmap_confbuf_pre_read (free_all mem_two [2]) zero_confbuf 1 = Some (None, 0)"
proof -
  have out: "chain_path mem_two (readp (buf1 chan_both)) [2]"
    by (simp add: mem_two_def chan_both_def)
  have inp: "chain_path mem_two (readp (buf0 chan_both)) [1]"
    by (simp add: mem_two_def chan_both_def buf_one_def)
  have sep: "set [1::nat] \<inter> set [2] = {}"
    by simp
  have l: "config_write_loop (free_all mem_two [2]) (buf0 chan_both) (write_req [])
            = Some (0, free_all mem_two [2], buf0 chan_both, write_req [])"
    by (rule config_write_loop_done) (simp add: write_req_def)
  have z: "netmap_confbuf_pre_read (free_all mem_two [2]) zero_confbuf 1 = Some (None, 0)"
    by (rule pre_read_zero)
  note t = config_write_discards_output [OF out inp sep, of "write_req []" 1]
  have d: "netmap_confbuf_destroy mem_two (buf1 chan_both) = Some (free_all mem_two [2], zero_confbuf)"
    by (rule t [THEN conjunct1])
  have f: "objs (free_all mem_two [2]) 2 = None"
    by (rule t [THEN conjunct2, THEN conjunct1, rule_format]) simp
  have k: "objs (free_all mem_two [2]) 1 = objs mem_two 1"
    by (rule t [THEN conjunct2, THEN conjunct2, THEN conjunct1, rule_format]) simp
  have p: "chain_path (free_all mem_two [2]) (readp (buf0 chan_both)) [1]"
    by (rule t [THEN conjunct2, THEN conjunct2, THEN conjunct2, THEN conjunct1])
  have w: "netmap_config_write mem_two chan_both (write_req [])
        = Some (0, free_all mem_two [2], \<lparr>buf0 = buf0 chan_both, buf1 = zero_confbuf\<rparr>, write_req [])"
    unfolding t [THEN conjunct2, THEN conjunct2, THEN conjunct2, THEN conjunct2, THEN conjunct1] l
    by (simp only: option.map prod.case)
  from out inp d f k p w z show ?thesis
    by (intro conjI)
qed

section \<open>The write loop and the segment cap\<close>

lemma unat_le_1024: "unat (s::u_int) \<le> 1024 \<Longrightarrow> s \<le> 1024"
  by (simp add: word_le_nat_alt)

lemma uint_le_1024: "(s::u_int) \<le> 1024 \<Longrightarrow> uint s \<le> 1024"
  by (simp add: word_le_def)

lemma stb_small: "uint (s::u_int) \<le> 1024 \<Longrightarrow> signed_take_bit 31 (uint s) = uint s"
  by (intro signed_take_bit_int_eq_self) (simp_all add: order_trans [of _ 0])

lemma sint_stb: "signed_take_bit 31 (uint s) = uint s \<Longrightarrow> sint (s::u_int) = uint s"
  unfolding sint_uint by simp

lemma nat_sint_uint: "sint (s::u_int) = uint s \<Longrightarrow> nat (sint s) = unat s"
  by simp

lemma nat_sint_small: "unat (s::u_int) \<le> 1024 \<Longrightarrow> nat (sint s) = unat s"
  by (rule nat_sint_uint [OF sint_stb [OF stb_small [OF uint_le_1024 [OF unat_le_1024]]]])

lemma unat_of_nat_resid: "n < 2 ^ 32 \<Longrightarrow> unat (of_nat n :: u_int) = n"
  by (simp add: unat_of_nat)

lemma unat_clip: "unat (clip s r) = min (unat s) (unat r)"
  by (auto simp: clip_def word_less_nat_alt)

lemma word_not_pos: "\<not> 0 < (x::u_int) \<Longrightarrow> x = 0"
  using word_greater_zero_iff [of x] by blast

lemma objs_store: "objs (store h a f) x = (if x = a then map_option f (objs h a) else objs h x)"
  by (simp add: store_def)

lemma brk_store: "brk (store h a f) = brk h"
  by (simp add: store_def)

lemma alloc_ok_store: "alloc_ok (store h a f) = alloc_ok h"
  by (auto simp: alloc_ok_def objs_store brk_store)

lemma uiomove_ok:
  assumes "objs h a = Some c" "unat b + k \<le> d_alloc c" "k \<le> uio_resid uio"
    "k \<le> length (uio_mem uio)" "nat n = k"
  shows "\<exists>h2 uio2. uiomove h (a, b) n uio = Some (0, h2, uio2)
           \<and> (h2 = h \<or> (\<exists>g. h2 = store h a (\<lambda>c. c\<lparr>d_data := g c\<rparr>)))
           \<and> uio_resid uio2 = uio_resid uio - k \<and> uio_mem uio2 = drop k (uio_mem uio)"
proof (cases "uio_rw uio")
  case UIO_READ
  with assms show ?thesis by (simp add: uiomove_def Let_def min_def)
next
  case UIO_WRITE
  with assms show ?thesis by (auto simp: uiomove_def Let_def min_def)
qed


lemma data_upd_frame:
  assumes "h2 = h \<or> (\<exists>g. h2 = store h a (\<lambda>c. c\<lparr>d_data := g c\<rparr>))"
  shows "alloc_ok h2 = alloc_ok h"
    and "objs h x = Some c \<Longrightarrow>
           \<exists>c2. objs h2 x = Some c2 \<and> d_size c2 = d_size c \<and> d_chain c2 = d_chain c
                \<and> d_alloc c2 = d_alloc c"
  using assms by (auto simp: alloc_ok_store objs_store)

lemma unat_add_small:
  "unat (b::u_int) + unat s \<le> 1024 \<Longrightarrow> unat (b + s) = unat b + unat s"
proof -
  assume "unat b + unat s \<le> 1024"
  then have "unat b + unat s < 2 ^ LENGTH(32)" by simp
  then show ?thesis by (simp only: unat_add_lem)
qed

lemma write_commit:
  assumes ok: "alloc_ok h1"
    and tail: "objs h1 a = Some c" "d_size c \<le> NM_CBDATASIZ" "unat (d_size c) \<le> d_alloc c"
    and reg: "unat b + unat s \<le> unat (d_size c)" "unat s \<le> uio_resid uio"
      "uio_resid uio \<le> length (uio_mem uio)"
    and cur: "(writep i1 = Some a \<and> next_w i1 = b \<and> b \<noteq> d_size c)
        \<or> (\<exists>w wc. writep i1 = Some w \<and> w \<noteq> a \<and> objs h1 w = Some wc \<and> next_w i1 = d_size wc
               \<and> d_chain wc = Some a \<and> b = 0)"
    and cnt: "n_data i1 \<le> NM_CBDATAMAX" "n_data i1 \<noteq> 0" "readp i1 \<noteq> None"
  shows "\<exists>h2 uio2 i2. uiomove h1 (a, b) (sint s) uio = Some (0, h2, uio2)
          \<and> netmap_confbuf_post_write h2 i1 s = Some i2 \<and> wr_inv h2 i2
          \<and> uio_resid uio2 = uio_resid uio - unat s
          \<and> uio_mem uio2 = drop (unat s) (uio_mem uio)
          \<and> room_left h2 i2 + unat s =
              (unat NM_CBDATAMAX - unat (n_data i1)) * unat NM_CBDATASIZ
              + (unat (d_size c) - unat b)"
proof -
  have sz: "unat (d_size c) \<le> 1024"
    using tail(2) by (simp add: word_le_nat_alt NM_CBDATASIZ_def)
  with reg(1) have s1024: "unat s \<le> 1024" and sum: "unat b + unat s \<le> 1024" by simp_all
  have n: "nat (sint s) = unat s" using s1024 by (rule nat_sint_small)
  have "unat b + unat s \<le> d_alloc c" using reg(1) tail(3) by simp
  from uiomove_ok [OF tail(1) this reg(2) _ n] reg(2,3)
  obtain h2 uio2 where mv: "uiomove h1 (a, b) (sint s) uio = Some (0, h2, uio2)"
    and fr: "h2 = h1 \<or> (\<exists>g. h2 = store h1 a (\<lambda>c. c\<lparr>d_data := g c\<rparr>))"
    and u2: "uio_resid uio2 = uio_resid uio - unat s" "uio_mem uio2 = drop (unat s) (uio_mem uio)"
    by auto
  from data_upd_frame(2) [OF fr tail(1)]
  obtain c2 where c2: "objs h2 a = Some c2" "d_size c2 = d_size c" "d_alloc c2 = d_alloc c"
    by auto
  have ok2: "alloc_ok h2" using data_upd_frame(1) [OF fr] ok by simp
  define i2 where "i2 = i1\<lparr>writep := Some a, next_w := b + s\<rparr>"
  have pw: "netmap_confbuf_post_write h2 i1 s = Some i2"
    using cur
  proof
    assume a1: "writep i1 = Some a \<and> next_w i1 = b \<and> b \<noteq> d_size c"
    with c2 post_write_eq [of i1 a h2 c2 s] show ?thesis
      by (simp add: i2_def writep_update_same)
  next
    assume "\<exists>w wc. writep i1 = Some w \<and> w \<noteq> a \<and> objs h1 w = Some wc \<and> next_w i1 = d_size wc
               \<and> d_chain wc = Some a \<and> b = 0"
    then obtain w wc where w: "writep i1 = Some w" "objs h1 w = Some wc" "next_w i1 = d_size wc"
        "d_chain wc = Some a" "b = 0" by auto
    from data_upd_frame(2) [OF fr w(2)]
    obtain wc2 where "objs h2 w = Some wc2" "d_size wc2 = d_size wc" "d_chain wc2 = d_chain wc"
      by auto
    with w post_write_eq [of i1 w h2 wc2 s] show ?thesis
      by (simp add: i2_def)
  qed
  have nw: "unat (b + s) = unat b + unat s" using sum by (rule unat_add_small)
  have "b + s \<le> d_size c2"
    using reg(1) c2(2) nw by (simp add: word_le_nat_alt)
  then have inv: "wr_inv h2 i2"
    using ok2 cnt c2 tail(2,3) by (simp add: wr_inv_def i2_def)
  have "room_left h2 i2 + unat s =
              (unat NM_CBDATAMAX - unat (n_data i1)) * unat NM_CBDATASIZ
              + (unat (d_size c) - unat b)"
    using c2 nw reg(1) by (simp add: room_left_def i2_def)
  with mv pw inv u2 show ?thesis by blast
qed


lemma pre_write_NULL:
  "netmap_confbuf_pre_write h cb req_size avl = Some (None, h1, cb1) \<Longrightarrow> h1 = h \<and> cb1 = cb"
  by (auto simp: netmap_confbuf_pre_write_def pre_write_expand_def Let_def
      split: option.splits if_splits)

lemma pre_write_defined:
  "(\<And>w. writep cb = Some w \<Longrightarrow> objs h w \<noteq> None) \<Longrightarrow>
   \<exists>r h1 cb1. netmap_confbuf_pre_write h cb req_size avl = Some (r, h1, cb1)"
  by (auto simp: netmap_confbuf_pre_write_def pre_write_expand_def Let_def
      split: option.splits if_splits)

lemma alloc_ok_malloc:
  assumes "alloc_ok h" "malloc h n = Some (a, h0)"
  shows "alloc_ok h0" "a = brk h" "objs h a = None"
    "objs h0 = (objs h)(a \<mapsto> \<lparr>d_chain = None, d_size = 0, d_data = junk h a,
                               d_alloc = n - sizeof_nm_confbuf_data\<rparr>)"
  using assms by (auto simp: alloc_ok_def dest!: malloc_SomeD)

lemma n_data_succ:
  assumes "(n::u_int) < NM_CBDATAMAX"
  shows "n + 1 \<le> NM_CBDATAMAX" "n + 1 \<noteq> 0" "unat (n + 1) = unat n + 1" "unat n < 4"
proof -
  from assms show lt: "unat n < 4" by (simp add: word_less_nat_alt NM_CBDATAMAX_def)
  then have "unat n + unat (1::u_int) < 2 ^ LENGTH(32)" by simp
  then have "unat (n + 1) = unat n + unat (1::u_int)" by (simp only: unat_add_lem)
  then show u: "unat (n + 1) = unat n + 1" by simp
  from u lt show "n + 1 \<le> NM_CBDATAMAX" by (simp add: word_le_nat_alt NM_CBDATAMAX_def)
  from u show "n + 1 \<noteq> 0" by (metis Suc_eq_plus1 nat.distinct(1) unat_0)
qed

lemma word_diff_zero: "(x::u_int) - y = 0 \<Longrightarrow> y = x"
  by simp


lemma write_step:
  assumes inv: "wr_inv h i"
    and r: "0 < uio_resid uio" "uio_resid uio < 2 ^ 32" "uio_resid uio \<le> length (uio_mem uio)"
  shows "netmap_confbuf_pre_write h i (of_nat (uio_resid uio)) True = Some (None, h, i)
     \<or> (\<exists>p s h1 i1 h2 uio2 i2.
           netmap_confbuf_pre_write h i (of_nat (uio_resid uio)) True = Some (Some (p, s), h1, i1)
           \<and> uiomove h1 p (sint s) uio = Some (0, h2, uio2)
           \<and> netmap_confbuf_post_write h2 i1 s = Some i2 \<and> wr_inv h2 i2
           \<and> 0 < unat s \<and> unat s \<le> uio_resid uio
           \<and> uio_resid uio2 = uio_resid uio - unat s
           \<and> uio_mem uio2 = drop (unat s) (uio_mem uio)
           \<and> room_left h2 i2 + unat s = room_left h i)"
proof -
  define req :: u_int where "req = of_nat (uio_resid uio)"
  have req: "unat req = uio_resid uio" using r(2) by (simp add: req_def unat_of_nat_resid)
  from inv have ok: "alloc_ok h" and cap: "n_data i \<le> NM_CBDATAMAX" by (simp_all add: wr_inv_def)
  have "\<And>w. writep i = Some w \<Longrightarrow> objs h w \<noteq> None"
    using inv by (auto simp: wr_inv_def split: option.splits)
  from pre_write_defined [OF this, where req_size = req and avl = True]
  obtain res h1 i1 where pre: "netmap_confbuf_pre_write h i req True = Some (res, h1, i1)"
    by blast
  show ?thesis
  proof (cases res)
    case None
    with pre pre_write_NULL [of h i req True h1 i1] show ?thesis
      by (simp add: req_def)
  next
    case (Some ps)
    obtain a b s where ps: "ps = ((a, b), s)" by (cases ps) auto
    with Some pre have pre': "netmap_confbuf_pre_write h i req True = Some (Some ((a, b), s), h1, i1)"
      by simp
    have "\<exists>h2 uio2 i2. uiomove h1 (a, b) (sint s) uio = Some (0, h2, uio2)
          \<and> netmap_confbuf_post_write h2 i1 s = Some i2 \<and> wr_inv h2 i2
          \<and> 0 < unat s \<and> unat s \<le> uio_resid uio
          \<and> uio_resid uio2 = uio_resid uio - unat s
          \<and> uio_mem uio2 = drop (unat s) (uio_mem uio)
          \<and> room_left h2 i2 + unat s = room_left h i"
      using pre'
    proof (cases rule: pre_write_SomeE)
      case (room dc)
      from inv room(1,2) have f: "next_w i \<le> d_size dc" "d_size dc \<le> NM_CBDATASIZ"
          "unat (d_size dc) \<le> d_alloc dc" "n_data i \<noteq> 0" "readp i \<noteq> None"
        by (simp_all add: wr_inv_def)
      have d: "unat (d_size dc - next_w i) = unat (d_size dc) - unat (next_w i)"
        using f(1) by (rule unat_sub)
      from room(4) have pos: "0 < unat (d_size dc - next_w i)" by (simp add: word_less_nat_alt)
      have s: "unat s = min (unat (d_size dc) - unat (next_w i)) (uio_resid uio)"
        using room(6) d req by (simp add: unat_clip)
      have s0: "0 < unat s" using s pos d r(1) by simp
      have s1: "unat s \<le> uio_resid uio" using s by simp
      have s2: "unat b + unat s \<le> unat (d_size dc)"
        using s room(3) pos d by simp
      have ne: "b \<noteq> d_size dc" using room(3,4) by auto
      have rl: "(unat NM_CBDATAMAX - unat (n_data i)) * unat NM_CBDATASIZ
              + (unat (d_size dc) - unat b) = room_left h i"
        using room(1,2,3) by (simp add: room_left_def)
      from write_commit [of h a dc b s uio i, OF ok room(2) f(2,3) s2 s1 r(3) _ cap f(4,5)]
        room(1,3) ne s0 s1 rl room(7,8)
      show ?thesis by auto
    next
      case first
      from inv first(1) have f: "readp i = None" "next_w i = 0" by (simp_all add: wr_inv_def)
      from first(2) show ?thesis
      proof (cases rule: pre_write_expand_SomeE)
        case (1 sz h0)
        note al = alloc_ok_malloc [OF ok 1(3)]
        note nd = n_data_succ [OF 1(1)]
        have sz: "sz = NM_CBDATASIZ" using 1(2) by simp
        have h1: "h1 = store h0 a (\<lambda>c. c\<lparr>d_size := sz, d_chain := None\<rparr>)" using 1(6) by simp
        have i1: "i1 = i\<lparr>n_data := n_data i + 1, readp := Some a, writep := Some a\<rparr>"
          using 1(7) f(1) by simp
        define c where "c = \<lparr>d_chain = None, d_size = sz, d_data = junk h a,
                    d_alloc = sizeof_nm_confbuf_data + unat sz - sizeof_nm_confbuf_data\<rparr>"
        have c: "objs h1 a = Some c" using h1 al(4) by (simp add: objs_store c_def)
        have ok1: "alloc_ok h1" using h1 al(1) by (simp add: alloc_ok_store)
        have s: "unat s = min 1024 (uio_resid uio)"
          using 1(5) sz req by (simp add: unat_clip NM_CBDATASIZ_def)
        have s0: "0 < unat s" using s r(1) by simp
        have s1: "unat s \<le> uio_resid uio" using s by simp
        have s2: "unat b + unat s \<le> unat (d_size c)"
          using s 1(4) sz by (simp add: c_def NM_CBDATASIZ_def)
        have c1: "d_size c \<le> NM_CBDATASIZ" "unat (d_size c) \<le> d_alloc c"
          using sz by (simp_all add: c_def)
        have cur: "writep i1 = Some a \<and> next_w i1 = b \<and> b \<noteq> d_size c"
          using i1 f(2) 1(4) sz by (simp add: c_def NM_CBDATASIZ_def)
        have cnt: "n_data i1 \<le> NM_CBDATAMAX" "n_data i1 \<noteq> 0" "readp i1 \<noteq> None"
          using i1 nd by simp_all
        have rl: "(unat NM_CBDATAMAX - unat (n_data i1)) * unat NM_CBDATASIZ
              + (unat (d_size c) - unat b) = room_left h i"
          using i1 nd(3,4) first(1) 1(4) sz
          by (simp add: room_left_def c_def NM_CBDATASIZ_def NM_CBDATAMAX_def)
        from write_commit [of h1 a c b s uio i1, OF ok1 c c1 s2 s1 r(3) _ cnt] cur s0 s1 rl
        show ?thesis by auto
      qed
    next
      case (grow w dc)
      from inv grow(1,2) have f: "next_w i \<le> d_size dc" "readp i \<noteq> None"
        by (simp_all add: wr_inv_def)
      from grow(3) have "\<not> 0 < d_size dc - next_w i" by simp
      then have "d_size dc - next_w i = 0" by (rule word_not_pos)
      then have full: "next_w i = d_size dc" by (rule word_diff_zero)
      from grow(4) show ?thesis
      proof (cases rule: pre_write_expand_SomeE)
        case (1 sz h0)
        note al = alloc_ok_malloc [OF ok 1(3)]
        note nd = n_data_succ [OF 1(1)]
        have sz: "sz = NM_CBDATASIZ" using 1(2) by simp
        have wa: "w \<noteq> a" using al(3) grow(2) by auto
        have h1: "h1 = store (store h0 a (\<lambda>c. c\<lparr>d_size := sz, d_chain := None\<rparr>)) w
                        (\<lambda>c. c\<lparr>d_size := next_w i, d_chain := Some a\<rparr>)" using 1(6) by simp
        have i1: "i1 = i\<lparr>n_data := n_data i + 1\<rparr>"
          using 1(7) f(2) by simp
        define c where "c = \<lparr>d_chain = None, d_size = sz, d_data = junk h a,
                    d_alloc = sizeof_nm_confbuf_data + unat sz - sizeof_nm_confbuf_data\<rparr>"
        have c: "objs h1 a = Some c" using h1 al(4) wa by (simp add: objs_store c_def)
        have wc: "objs h1 w = Some (dc\<lparr>d_size := next_w i, d_chain := Some a\<rparr>)"
          using h1 al(4) wa grow(2) by (simp add: objs_store)
        have ok1: "alloc_ok h1" using h1 al(1) by (simp add: alloc_ok_store)
        have s: "unat s = min 1024 (uio_resid uio)"
          using 1(5) sz req by (simp add: unat_clip NM_CBDATASIZ_def)
        have s0: "0 < unat s" using s r(1) by simp
        have s1: "unat s \<le> uio_resid uio" using s by simp
        have s2: "unat b + unat s \<le> unat (d_size c)"
          using s 1(4) sz by (simp add: c_def NM_CBDATASIZ_def)
        have c1: "d_size c \<le> NM_CBDATASIZ" "unat (d_size c) \<le> d_alloc c"
          using sz by (simp_all add: c_def)
        have cur: "\<exists>w wc. writep i1 = Some w \<and> w \<noteq> a \<and> objs h1 w = Some wc
               \<and> next_w i1 = d_size wc \<and> d_chain wc = Some a \<and> b = 0"
          using i1 grow(1) wa wc 1(4) by auto
        have cnt: "n_data i1 \<le> NM_CBDATAMAX" "n_data i1 \<noteq> 0" "readp i1 \<noteq> None"
          using i1 nd f(2) by simp_all
        have rl: "(unat NM_CBDATAMAX - unat (n_data i1)) * unat NM_CBDATASIZ
              + (unat (d_size c) - unat b) = room_left h i"
          using i1 nd(3,4) grow(1,2) full 1(4) sz
          by (simp add: room_left_def c_def NM_CBDATASIZ_def NM_CBDATAMAX_def)
        from write_commit [of h1 a c b s uio i1, OF ok1 c c1 s2 s1 r(3) _ cnt] cur s0 s1 rl
        show ?thesis by auto
      qed
    qed
    with pre' show ?thesis unfolding req_def by blast
  qed
qed


lemma write_loop_ENOMEM:
  "wr_inv h i \<Longrightarrow> room_left h i < uio_resid uio \<Longrightarrow> uio_resid uio < 2 ^ 32 \<Longrightarrow>
   uio_resid uio \<le> length (uio_mem uio) \<Longrightarrow>
   \<exists>h' i' uio'. config_write_loop h i uio = Some (ENOMEM, h', i', uio') \<and> wr_inv h' i'"
proof (induction "uio_resid uio" arbitrary: h i uio rule: less_induct)
  case less
  from less.prems(2) have pos: "0 < uio_resid uio" by simp
  from write_step [OF less.prems(1) pos less.prems(3,4)]
  show ?case
  proof
    assume "netmap_confbuf_pre_write h i (of_nat (uio_resid uio)) True = Some (None, h, i)"
    with pos less.prems(1) show ?thesis
      by (subst config_write_loop.simps) simp
  next
    assume "\<exists>p s h1 i1 h2 uio2 i2.
           netmap_confbuf_pre_write h i (of_nat (uio_resid uio)) True = Some (Some (p, s), h1, i1)
           \<and> uiomove h1 p (sint s) uio = Some (0, h2, uio2)
           \<and> netmap_confbuf_post_write h2 i1 s = Some i2 \<and> wr_inv h2 i2
           \<and> 0 < unat s \<and> unat s \<le> uio_resid uio
           \<and> uio_resid uio2 = uio_resid uio - unat s
           \<and> uio_mem uio2 = drop (unat s) (uio_mem uio)
           \<and> room_left h2 i2 + unat s = room_left h i"
    then obtain p s h1 i1 h2 uio2 i2 where
      st: "netmap_confbuf_pre_write h i (of_nat (uio_resid uio)) True = Some (Some (p, s), h1, i1)"
        "uiomove h1 p (sint s) uio = Some (0, h2, uio2)"
        "netmap_confbuf_post_write h2 i1 s = Some i2"
      and inv2: "wr_inv h2 i2"
      and s: "0 < unat s" "unat s \<le> uio_resid uio"
      and u2: "uio_resid uio2 = uio_resid uio - unat s" "uio_mem uio2 = drop (unat s) (uio_mem uio)"
      and rl: "room_left h2 i2 + unat s = room_left h i"
      by blast
    have a: "uio_resid uio2 < uio_resid uio" using s u2 by simp
    have b: "room_left h2 i2 < uio_resid uio2" using rl less.prems(2) u2 s by simp
    have c: "uio_resid uio2 < 2 ^ 32" using a less.prems(3) by simp
    have d: "uio_resid uio2 \<le> length (uio_mem uio2)" using u2 less.prems(4) by simp
    from less.hyps [OF a inv2 b c d]
    obtain h' i' uio' where "config_write_loop h2 i2 uio2 = Some (ENOMEM, h', i', uio')" "wr_inv h' i'"
      by blast
    moreover have "config_write_loop h i uio = config_write_loop h2 i2 uio2"
      using pos st by (subst config_write_loop.simps) simp
    ultimately show ?thesis by simp
  qed
qed

lemma room_left_le:
  assumes "wr_inv h i"
  shows "room_left h i \<le> unat NM_CBDATAMAX * unat NM_CBDATASIZ"
proof (cases "writep i")
  case None
  then show ?thesis by (simp add: room_left_def)
next
  case (Some w)
  with assms obtain wc where wc: "objs h w = Some wc" "d_size wc \<le> NM_CBDATASIZ" "n_data i \<noteq> 0"
    "n_data i \<le> NM_CBDATAMAX"
    by (auto simp: wr_inv_def split: option.splits)
  from wc(3) have "0 < unat (n_data i)" by (simp add: unat_gt_0)
  moreover from wc(4) have "unat (n_data i) \<le> 4" by (simp add: word_le_nat_alt NM_CBDATAMAX_def)
  moreover from wc(2) have "unat (d_size wc) \<le> 1024" by (simp add: word_le_nat_alt NM_CBDATASIZ_def)
  ultimately show ?thesis using Some wc(1)
    by (simp add: room_left_def NM_CBDATAMAX_def NM_CBDATASIZ_def)
qed

lemma wr_inv_free_all:
  assumes "wr_inv h i" and "\<And>w. writep i = Some w \<Longrightarrow> w \<notin> set os"
  shows "wr_inv (free_all h os) i"
  using assms
  by (auto simp: wr_inv_def alloc_ok_def objs_free_all brk_free_all split: option.splits)

lemma config_write_ENOMEM:
  assumes inv: "wr_inv h (buf0 c)"
    and out: "chain_path h (readp (buf1 c)) os"
    and sep: "\<And>w. writep (buf0 c) = Some w \<Longrightarrow> w \<notin> set os"
    and big: "unat NM_CBDATAMAX * unat NM_CBDATASIZ < uio_resid uio"
    and r: "uio_resid uio < 2 ^ 32" "uio_resid uio \<le> length (uio_mem uio)"
  shows "\<exists>h' c' uio'. netmap_config_write h c uio = Some (ENOMEM, h', c', uio')"
proof -
  have d: "netmap_confbuf_destroy h (buf1 c) = Some (free_all h os, zero_confbuf)"
    using destroy_loop_path [OF out] by (simp add: netmap_confbuf_destroy_def)
  have inv': "wr_inv (free_all h os) (buf0 c)" using inv sep by (rule wr_inv_free_all)
  from room_left_le [OF inv'] big have "room_left (free_all h os) (buf0 c) < uio_resid uio" by simp
  from write_loop_ENOMEM [OF inv' this r]
  obtain h' i' uio' where "config_write_loop (free_all h os) (buf0 c) uio = Some (ENOMEM, h', i', uio')"
    by blast
  with d show ?thesis by (simp add: netmap_config_write_def)
qed

section \<open>The buffer invariant under any sequence of calls\<close>

lemma chain_path_None: "chain_path h None as \<Longrightarrow> as = []"
  by (cases as) auto

lemma alloc_ok_lt: "alloc_ok h \<Longrightarrow> objs h a \<noteq> None \<Longrightarrow> a < brk h"
  by (auto simp: alloc_ok_def not_le [symmetric])

lemma brk_malloc: "malloc h n = Some (a, h0) \<Longrightarrow> brk h0 = Suc (brk h)"
  by (auto dest!: malloc_SomeD)

lemma alloc_ok_free: "alloc_ok h \<Longrightarrow> alloc_ok (free h a)"
  by (simp add: alloc_ok_def objs_free brk_free)

lemma alloc_ok_free_all: "alloc_ok h \<Longrightarrow> alloc_ok (free_all h as)"
  by (simp add: alloc_ok_def objs_free_all brk_free_all)

lemma chain_path_relink:
  assumes "chain_path h p (pre @ w # post)"
    and "\<And>x. x \<in> set pre \<Longrightarrow> objs h1 x = objs h x"
    and "objs h1 w = Some wc" "d_chain wc = Some a"
    and "objs h1 a = Some ac" "d_chain ac = None"
  shows "chain_path h1 p (pre @ [w, a])"
  using assms(1,2)
proof (induction pre arbitrary: p)
  case Nil
  then show ?case using assms(3-6) by simp
next
  case (Cons x pre)
  from Cons.prems(1) obtain c where c: "p = Some x" "objs h x = Some c"
      "chain_path h (d_chain c) (pre @ w # post)"
    by (cases "objs h x") auto
  have "chain_path h1 (d_chain c) (pre @ [w, a])"
    using c(3) Cons.prems(2) by (intro Cons.IH) simp_all
  moreover have "objs h1 x = Some c" using Cons.prems(2) [of x] c(2) by simp
  ultimately show ?case using c(1) by simp
qed

lemma peek_state:
  "netmap_confbuf_peek h cb = Some (v, h1, cb1) \<Longrightarrow> h1 = h \<and> cb1 = cb"
  by (auto simp: netmap_confbuf_peek_def split: option.splits if_splits)

lemma cb_inv_zero: "alloc_ok h \<Longrightarrow> cb_inv h zero_confbuf"
  by (simp add: cb_inv_def zero_confbuf_def NM_CBDATAMAX_def exI [of _ "[]"])

lemma cb_inv_destroy:
  assumes "cb_inv h cb" "netmap_confbuf_destroy h cb = Some (h1, cb1)"
  shows "cb_inv h1 cb1"
proof -
  from assms(1) obtain as where "chain_path h (readp cb) as" and ok: "alloc_ok h"
    by (auto simp: cb_inv_def)
  from destroy_loop_path [OF this(1)] assms(2)
  have "h1 = free_all h as" "cb1 = zero_confbuf"
    by (auto simp: netmap_confbuf_destroy_def)
  with ok show ?thesis by (simp add: cb_inv_zero alloc_ok_free_all)
qed

lemma cb_inv_post_read:
  assumes inv: "cb_inv h cb" and pr: "netmap_confbuf_post_read h cb sz = Some (h1, cb1)"
  shows "cb_inv h1 cb1"
proof -
  from pr obtain r rc where r: "readp cb = Some r" "objs h r = Some rc"
    by (auto simp: netmap_confbuf_post_read_def split: option.splits)
  from inv obtain as where as: "chain_path h (readp cb) as" "length as \<le> unat (n_data cb)"
      "\<And>w. writep cb = Some w \<Longrightarrow> objs h w \<noteq> None \<Longrightarrow> w \<in> set as"
    and ok: "alloc_ok h" and cap: "n_data cb \<le> NM_CBDATAMAX"
    and wb: "\<And>w. writep cb = Some w \<Longrightarrow> w < brk h"
    by (auto simp: cb_inv_def)
  show ?thesis
  proof (cases "next_r cb = d_size rc")
    case False
    with pr r have "h1 = h" "cb1 = cb\<lparr>next_r := next_r cb + sz\<rparr>"
      using post_read_eq [OF r, of sz] by simp_all
    with inv show ?thesis by (simp add: cb_inv_def)
  next
    case True
    with pr r have h1: "h1 = free h r"
      and cb1: "cb1 = cb\<lparr>readp := d_chain rc, next_r := sz, n_data := n_data cb - 1\<rparr>"
      using post_read_eq [OF r, of sz] by simp_all
    from as(1) r obtain as' where as': "as = r # as'" "chain_path h (d_chain rc) as'"
      by (cases as) auto
    from chain_path_distinct [OF as(1)] as'(1) have nin: "r \<notin> set as'" by simp
    then have "chain_path h1 (d_chain rc) as' = chain_path h (d_chain rc) as'"
      unfolding h1 by (intro chain_path_cong) (auto simp: objs_free)
    with as'(2) have p: "chain_path h1 (d_chain rc) as'" by simp
    from as(2) as'(1) have pos: "0 < unat (n_data cb)" by simp
    then have nz: "n_data cb \<noteq> 0" by (simp add: unat_gt_0)
    then have dec: "unat (n_data cb - 1) = unat (n_data cb) - 1" by (rule unat_minus_one)
    have len: "length as' \<le> unat (n_data cb - 1)" using as(2) as'(1) dec by simp
    have cap': "n_data cb - 1 \<le> NM_CBDATAMAX"
      using cap dec by (simp add: word_le_nat_alt)
    have wr: "\<And>w. writep cb = Some w \<Longrightarrow> objs h1 w \<noteq> None \<Longrightarrow> w \<in> set as'"
    proof -
      fix w assume w: "writep cb = Some w" "objs h1 w \<noteq> None"
      then have "w \<noteq> r" "objs h w \<noteq> None" unfolding h1 by (auto simp: objs_free split: if_splits)
      with as(3) [OF w(1)] as'(1) show "w \<in> set as'" by simp
    qed
    show ?thesis
      unfolding cb_inv_def cb1 h1 [symmetric]
      using ok p len cap' wr wb h1 by (auto simp: alloc_ok_free brk_free)
  qed
qed


lemma cb_inv_post_write:
  assumes inv: "cb_inv h cb" and pw: "netmap_confbuf_post_write h cb sz = Some cb1"
  shows "cb_inv h cb1"
proof -
  from pw obtain w wc where w: "writep cb = Some w" "objs h w = Some wc"
    by (auto simp: netmap_confbuf_post_write_def split: option.splits)
  from inv obtain as where as: "chain_path h (readp cb) as" "length as \<le> unat (n_data cb)"
      "\<And>w. writep cb = Some w \<Longrightarrow> objs h w \<noteq> None \<Longrightarrow> w \<in> set as"
    and ok: "alloc_ok h" and cap: "n_data cb \<le> NM_CBDATAMAX"
    and wb: "\<And>w. writep cb = Some w \<Longrightarrow> w < brk h"
    by (auto simp: cb_inv_def)
  show ?thesis
  proof (cases "next_w cb = d_size wc")
    case False
    with pw w have "cb1 = cb\<lparr>next_w := next_w cb + sz\<rparr>"
      using post_write_eq [OF w, of sz] by simp
    with inv show ?thesis by (simp add: cb_inv_def)
  next
    case True
    with pw w have cb1: "cb1 = cb\<lparr>writep := d_chain wc, next_w := sz\<rparr>"
      using post_write_eq [OF w, of sz] by simp
    from as(3) [OF w(1)] w(2) have "w \<in> set as" by simp
    then obtain pre post where sp: "as = pre @ w # post" by (auto dest: split_list)
    with as(1) w(2) have post: "chain_path h (d_chain wc) post"
      by (auto dest: chain_path_suffix)
    have nx: "\<And>x. d_chain wc = Some x \<Longrightarrow> x \<in> set as \<and> x < brk h"
    proof -
      fix x assume x: "d_chain wc = Some x"
      with post have "x \<in> set post" by (cases post) auto
      with sp have "x \<in> set as" by simp
      moreover from this as(1) have "objs h x \<noteq> None" by (auto dest: chain_path_allocated)
      ultimately show "x \<in> set as \<and> x < brk h" using ok by (auto dest: alloc_ok_lt)
    qed
    show ?thesis
      unfolding cb_inv_def cb1 using ok cap as(1,2) nx by auto
  qed
qed

lemma cb_inv_pre_write:
  assumes inv: "cb_inv h cb"
    and pre: "netmap_confbuf_pre_write h cb req_size avl = Some (res, h1, cb1)"
  shows "cb_inv h1 cb1"
proof (cases res)
  case None
  with pre pre_write_NULL [of h cb req_size avl h1 cb1] inv show ?thesis by simp
next
  case (Some ps)
  obtain a b s where "ps = ((a, b), s)" by (cases ps) auto
  with Some pre have pre': "netmap_confbuf_pre_write h cb req_size avl = Some (Some ((a, b), s), h1, cb1)"
    by simp
  from inv obtain as where as: "chain_path h (readp cb) as" "length as \<le> unat (n_data cb)"
      "\<And>w. writep cb = Some w \<Longrightarrow> objs h w \<noteq> None \<Longrightarrow> w \<in> set as"
    and ok: "alloc_ok h" and cap: "n_data cb \<le> NM_CBDATAMAX"
    and wb: "\<And>w. writep cb = Some w \<Longrightarrow> w < brk h"
    by (auto simp: cb_inv_def)
  from pre' show ?thesis
  proof (cases rule: pre_write_SomeE)
    case (room dc)
    with inv show ?thesis by simp
  next
    case first
    from first(2) show ?thesis
    proof (cases rule: pre_write_expand_SomeE)
      case (1 sz h0)
      note al = alloc_ok_malloc [OF ok 1(3)]
      note nd = n_data_succ [OF 1(1)]
      have bk: "brk h1 = Suc (brk h)" using 1(6) brk_malloc [OF 1(3)] by (simp add: brk_store)
      have h1: "h1 = store h0 a (\<lambda>c. c\<lparr>d_size := sz, d_chain := None\<rparr>)" using 1(6) by simp
      have ok1: "alloc_ok h1" using h1 al(1) by (simp add: alloc_ok_store)
      have same: "\<And>x. x \<in> set as \<Longrightarrow> objs h1 x = objs h x"
      proof -
        fix x assume "x \<in> set as"
        with as(1) have "objs h x \<noteq> None" by (rule chain_path_allocated)
        with al(3) have "x \<noteq> a" by auto
        then show "objs h1 x = objs h x" using h1 al(4) by (simp add: objs_store)
      qed
      show ?thesis
      proof (cases "readp cb")
        case None
        with 1(7) have cb1: "cb1 = cb\<lparr>n_data := n_data cb + 1, readp := Some a, writep := Some a\<rparr>"
          by simp
        have "chain_path h1 (Some a) [a]" using h1 al(4) by (simp add: objs_store)
        then show ?thesis
          unfolding cb_inv_def cb1 using ok1 nd bk al(2)
          by (auto intro!: exI [of _ "[a]"])
      next
        case (Some r)
        with 1(7) have cb1: "cb1 = cb\<lparr>n_data := n_data cb + 1\<rparr>" by simp
        have "chain_path h1 (readp cb) as = chain_path h (readp cb) as"
          using same by (rule chain_path_cong)
        with as(1) have "chain_path h1 (readp cb) as" by simp
        then show ?thesis
          unfolding cb_inv_def cb1 using ok1 nd first(1) as(2)
          by (auto intro!: exI [of _ as])
      qed
    qed
  next
    case (grow w dc)
    from as(3) [OF grow(1)] grow(2) have win: "w \<in> set as" by simp
    then obtain pre post where sp: "as = pre @ w # post" by (auto dest: split_list)
    from chain_path_distinct [OF as(1)] sp have wpre: "w \<notin> set pre" by simp
    from as(1) win have rp: "readp cb \<noteq> None" by (cases as) auto
    from grow(4) show ?thesis
    proof (cases rule: pre_write_expand_SomeE)
      case (1 sz h0)
      note al = alloc_ok_malloc [OF ok 1(3)]
      note nd = n_data_succ [OF 1(1)]
      have wa: "w \<noteq> a" using al(3) grow(2) by auto
      have h1: "h1 = store (store h0 a (\<lambda>c. c\<lparr>d_size := sz, d_chain := None\<rparr>)) w
                        (\<lambda>c. c\<lparr>d_size := next_w cb, d_chain := Some a\<rparr>)" using 1(6) by simp
      have bk: "brk h1 = Suc (brk h)" using h1 brk_malloc [OF 1(3)] by (simp add: brk_store)
      have ok1: "alloc_ok h1" using h1 al(1) by (simp add: alloc_ok_store)
      have cb1: "cb1 = cb\<lparr>n_data := n_data cb + 1\<rparr>" using 1(7) rp by simp
      have same: "\<And>x. x \<in> set pre \<Longrightarrow> objs h1 x = objs h x"
      proof -
        fix x assume x: "x \<in> set pre"
        with sp have "x \<in> set as" by simp
        with as(1) have "objs h x \<noteq> None" by (rule chain_path_allocated)
        with al(3) have "x \<noteq> a" by auto
        moreover from x wpre have "x \<noteq> w" by auto
        ultimately show "objs h1 x = objs h x" using h1 al(4) by (simp add: objs_store)
      qed
      have c: "objs h1 a = Some \<lparr>d_chain = None, d_size = sz, d_data = junk h a,
                    d_alloc = sizeof_nm_confbuf_data + unat sz - sizeof_nm_confbuf_data\<rparr>"
        using h1 al(4) wa by (simp add: objs_store)
      have wc: "objs h1 w = Some (dc\<lparr>d_size := next_w cb, d_chain := Some a\<rparr>)"
        using h1 al(4) wa grow(2) by (simp add: objs_store)
      have p: "chain_path h1 (readp cb) (pre @ [w, a])"
        using as(1) [unfolded sp] same wc _ c by (rule chain_path_relink) simp_all
      have len: "length (pre @ [w, a]) \<le> unat (n_data cb + 1)"
        using as(2) sp nd(3) by simp
      have wlt: "w < Suc (brk h)" using wb [OF grow(1)] by simp
      show ?thesis
        unfolding cb_inv_def cb1 using ok1 nd(1) bk p len grow(1) wlt
        by (auto intro!: exI [of _ "pre @ [w, a]"])
    qed
  qed
qed

lemma cb_inv_step:
  "cb_inv h cb \<Longrightarrow> cb_step h cb x = Some (n, h1, cb1) \<Longrightarrow> cb_inv h1 cb1"
proof (cases x)
  case (Pre_write req avl)
  assume "cb_inv h cb" "cb_step h cb x = Some (n, h1, cb1)"
  with Pre_write show ?thesis
    by (auto split: option.splits dest: cb_inv_pre_write)
next
  case (Post_write sz)
  assume "cb_inv h cb" "cb_step h cb x = Some (n, h1, cb1)"
  with Post_write show ?thesis
    by (auto split: option.splits dest: cb_inv_post_write)
next
  case (Pre_read sz)
  assume "cb_inv h cb" "cb_step h cb x = Some (n, h1, cb1)"
  with Pre_read show ?thesis
    by (auto split: option.splits)
next
  case (Post_read sz)
  assume "cb_inv h cb" "cb_step h cb x = Some (n, h1, cb1)"
  with Post_read show ?thesis
    by (auto split: option.splits dest: cb_inv_post_read)
next
  case Peek
  assume "cb_inv h cb" "cb_step h cb x = Some (n, h1, cb1)"
  with Peek show ?thesis
    by (auto split: option.splits dest: peek_state)
next
  case Consume
  assume "cb_inv h cb" "cb_step h cb x = Some (n, h1, cb1)"
  with Consume show ?thesis
    by (auto simp: netmap_confbuf_consume_def split: option.splits dest: cb_inv_post_read)
next
  case Destroy
  assume "cb_inv h cb" "cb_step h cb x = Some (n, h1, cb1)"
  with Destroy show ?thesis
    by (auto split: option.splits dest: cb_inv_destroy)
qed

lemma cb_inv_run:
  "cb_inv h cb \<Longrightarrow> cb_run h cb xs = Some (t, h1, cb1) \<Longrightarrow> cb_inv h1 cb1"
proof (induction xs arbitrary: h cb t)
  case Nil
  then show ?case by simp
next
  case (Cons x xs)
  from Cons.prems(2) obtain n h' cb' t' where
    st: "cb_step h cb x = Some (n, h', cb')" and rn: "cb_run h' cb' xs = Some (t', h1, cb1)"
    by (auto split: option.splits)
  from cb_inv_step [OF Cons.prems(1) st] have "cb_inv h' cb'" .
  from Cons.IH [OF this rn] show ?case .
qed

lemma pre_write_expand_cap:
  "NM_CBDATAMAX \<le> n_data cb \<Longrightarrow> pre_write_expand h cb d req_size avl = Some (None, h, cb)"
  by (simp add: pre_write_expand_def)

lemma pre_write_cap:
  assumes "NM_CBDATAMAX \<le> n_data cb"
    and "netmap_confbuf_pre_write h cb req_size avl = Some (res, h1, cb1)"
  shows "h1 = h \<and> cb1 = cb
         \<and> (res = None \<or> (\<exists>a dc. writep cb = Some a \<and> objs h a = Some dc
                                \<and> 0 < d_size dc - next_w cb))"
  using assms
  by (auto simp: netmap_confbuf_pre_write_def pre_write_expand_cap Let_def
      split: option.splits if_splits)


text \<open>
  The cap on the number of chunks. First, \<open>n_data\<close> never exceeds \<open>NM_CBDATAMAX\<close>:
  this is about every list of calls run from the zeroed buffer, in any memory whose
  allocator is sound, that has a defined result. Second, with \<open>n_data\<close> at the cap the
  expanding part of \<open>netmap_confbuf_pre_write\<close> returns \<open>NULL\<close>, and a call that returns
  leaves memory and buffer as they were, with a region only if the chunk being written
  still has room. Third, \<open>netmap_config_write\<close> with more than \<open>NM_CBDATAMAX\<close> times
  \<open>NM_CBDATASIZ\<close> bytes returns \<open>ENOMEM\<close>, on a channel whose input buffer is in a
  state the write loop produces (\<open>wr_inv\<close>, which holds after every sequence of write
  calls on the empty channel, see \<open>written_channel_inv\<close>) and whose output chain does not
  contain the chunk being written, when caller memory is valid for all of the bytes, so
  that the transport does not fail first, and when the byte count is below \<open>2 ^ 32\<close>.
  Without the last condition the third part does not hold, see below.
\<close>

lemma segment_cap_enforced:
  assumes run: "alloc_ok h0" "cb_run h0 zero_confbuf calls = Some (t, h, cb)"
    and full: "NM_CBDATAMAX \<le> n_data cb'"
      "netmap_confbuf_pre_write h' cb' req_size avl = Some (res, h1, cb1)"
    and chan: "wr_inv hw (buf0 c)" "chain_path hw (readp (buf1 c)) os"
      "\<forall>w. writep (buf0 c) = Some w \<longrightarrow> w \<notin> set os"
    and big: "unat NM_CBDATAMAX * unat NM_CBDATASIZ < uio_resid uio"
      "uio_resid uio < 2 ^ 32" "uio_resid uio \<le> length (uio_mem uio)"
  shows "n_data cb \<le> NM_CBDATAMAX
     \<and> pre_write_expand h' cb' d req_size avl = Some (None, h', cb')
     \<and> h1 = h' \<and> cb1 = cb'
     \<and> (res = None \<or> (\<exists>a dc. writep cb' = Some a \<and> objs h' a = Some dc
                             \<and> 0 < d_size dc - next_w cb'))
     \<and> (\<exists>hw' c' uio'. netmap_config_write hw c uio = Some (ENOMEM, hw', c', uio'))"
proof -
  from cb_inv_run [OF cb_inv_zero [OF run(1)] run(2)]
  have "n_data cb \<le> NM_CBDATAMAX" by (simp add: cb_inv_def)
  moreover note pre_write_expand_cap [OF full(1), of h' d req_size avl]
    pre_write_cap [OF full]
  moreover from chan(3) have "\<And>w. writep (buf0 c) = Some w \<Longrightarrow> w \<notin> set os" by simp
  from config_write_ENOMEM [OF chan(1,2) this big]
  have "\<exists>hw' c' uio'. netmap_config_write hw c uio = Some (ENOMEM, hw', c', uio')" .
  ultimately show ?thesis by simp
qed

lemma segment_cap_enforced_example:
  "cb_run mem_empty zero_confbuf [Pre_write 1024 True] = Some (1024, mem_one, buf_one)
   \<and> n_data buf_one \<le> NM_CBDATAMAX
   \<and> netmap_confbuf_pre_write mem_one (buf_one\<lparr>n_data := 4, next_w := 1024\<rparr>) 1 True
        = Some (None, mem_one, buf_one\<lparr>n_data := 4, next_w := 1024\<rparr>)
   \<and> pre_write_expand mem_one (buf_one\<lparr>n_data := 4, next_w := 1024\<rparr>) (Some 1) 1 True
        = Some (None, mem_one, buf_one\<lparr>n_data := 4, next_w := 1024\<rparr>)
   \<and> (\<exists>hw' c' uio'. netmap_config_write mem_empty chan_zero uio_big = Some (ENOMEM, hw', c', uio'))"
proof -
  have ok: "alloc_ok mem_empty" by (simp add: alloc_ok_def mem_empty_def)
  have run: "cb_run mem_empty zero_confbuf [Pre_write 1024 True] = Some (1024, mem_one, buf_one)"
    by (simp add: model_defs mem_empty_def mem_one_def buf_one_def Let_def
        word_le_nat_alt word_less_nat_alt)
  have full: "NM_CBDATAMAX \<le> n_data (buf_one\<lparr>n_data := 4, next_w := 1024\<rparr>)"
    by (simp add: NM_CBDATAMAX_def)
  have pre: "netmap_confbuf_pre_write mem_one (buf_one\<lparr>n_data := 4, next_w := 1024\<rparr>) 1 True
        = Some (None, mem_one, buf_one\<lparr>n_data := 4, next_w := 1024\<rparr>)"
    by (simp add: model_defs mem_one_def buf_one_def Let_def word_le_nat_alt word_less_nat_alt)
  have inv: "wr_inv mem_empty (buf0 chan_zero)"
    using ok by (simp add: wr_inv_def chan_zero_def zero_confbuf_def NM_CBDATAMAX_def)
  have out: "chain_path mem_empty (readp (buf1 chan_zero)) []"
    by (simp add: chan_zero_def zero_confbuf_def)
  have sep: "\<forall>w. writep (buf0 chan_zero) = Some w \<longrightarrow> w \<notin> set []" by simp
  have big: "unat NM_CBDATAMAX * unat NM_CBDATASIZ < uio_resid uio_big"
      "uio_resid uio_big < 2 ^ 32" "uio_resid uio_big \<le> length (uio_mem uio_big)"
    by (simp_all add: uio_big_def NM_CBDATAMAX_def NM_CBDATASIZ_def)
  note t = segment_cap_enforced [OF ok run full pre inv out sep big, of "Some 1"]
  from t [THEN conjunct1] t [THEN conjunct2, THEN conjunct1]
    t [THEN conjunct2, THEN conjunct2, THEN conjunct2, THEN conjunct2, THEN conjunct2] run pre
  show ?thesis by (intro conjI)
qed

section \<open>A byte count that does not fit an \<open>int\<close>\<close>

text \<open>
  An iteration of the write loop that is entered with a byte count whose low 32 bits are 0,
  on a chunk that has room: \<open>netmap_confbuf_pre_write\<close> is asked for 0 bytes and hands out
  a region of length 0, \<open>uiomove\<close> moves nothing, \<open>netmap_confbuf_post_write\<close> advances
  by 0. Memory, buffer and request are what they were, so the loop never ends.
\<close>

lemma store_same: "objs h a = Some c \<Longrightarrow> f c = c \<Longrightarrow> store h a f = h"
  by (simp add: store_def fun_upd_idem)

lemma write_iteration_zero:
  assumes "0 < uio_resid uio" "(of_nat (uio_resid uio) :: u_int) = 0"
    and "writep i = Some a" "objs h a = Some c" "0 < d_size c - next_w i"
    and "unat (next_w i) \<le> d_alloc c" "uio_rw uio = UIO_WRITE"
  shows "netmap_confbuf_pre_write h i (of_nat (uio_resid uio)) True
           = Some (Some ((a, next_w i), 0), h, i)
    \<and> uiomove h (a, next_w i) (sint (0::u_int)) uio = Some (0, h, uio)
    \<and> netmap_confbuf_post_write h i 0 = Some i"
proof -
  have 1: "netmap_confbuf_pre_write h i (of_nat (uio_resid uio)) True
             = Some (Some ((a, next_w i), 0), h, i)"
    using assms by (simp add: netmap_confbuf_pre_write_def Let_def clip_def)
  have e: "\<And>b j::nat. (b \<le> j \<and> j < b) = False" by auto
  have "store h a (\<lambda>c. c\<lparr>d_data := (\<lambda>i. d_data c i)\<rparr>) = h"
    using assms(4) by (intro store_same) simp_all
  then have 2: "uiomove h (a, next_w i) (sint (0::u_int)) uio = Some (0, h, uio)"
    using assms by (simp add: uiomove_def Let_def e)
  from assms(5) have "next_w i \<noteq> d_size c" by auto
  then have 3: "netmap_confbuf_post_write h i 0 = Some i"
    using assms by (simp add: netmap_confbuf_post_write_def Let_def)
  from 1 2 3 show ?thesis by simp
qed

lemma write_loop_spins:
  assumes "0 < uio_resid uio" "(of_nat (uio_resid uio) :: u_int) = 0"
    and "writep i = Some a" "objs h a = Some c" "0 < d_size c - next_w i"
    and "unat (next_w i) \<le> d_alloc c" "uio_rw uio = UIO_WRITE"
  shows "config_write_loop h i uio = None"
proof (rule ccontr)
  assume "config_write_loop h i uio \<noteq> None"
  then obtain r where r: "config_write_loop h i uio = Some r" by auto
  note it = write_iteration_zero [OF assms]
  have "(h, i, uio) \<noteq> (h, i, uio)"
  proof (rule config_write_loop.raw_induct
      [where P = "\<lambda>h' i' uio' r. (h', i', uio') \<noteq> (h, i, uio)", OF _ r])
    fix self h' i' uio' r'
    assume IH: "\<And>h' i' uio' r. self h' i' uio' = Some r \<Longrightarrow> (h', i', uio') \<noteq> (h, i, uio)"
      and body: "(if 0 < uio_resid uio' then
        (case netmap_confbuf_pre_write h' i' (of_nat (uio_resid uio')) True of
           None \<Rightarrow> None
         | Some (None, h1, i1) \<Rightarrow> Some (ENOMEM, h1, i1, uio')
         | Some (Some (p, s), h1, i1) \<Rightarrow>
             (case uiomove h1 p (sint s) uio' of
                None \<Rightarrow> None
              | Some (ret, h2, uio2) \<Rightarrow>
                  if ret \<noteq> 0 then Some (ret, h2, i1, uio2)
                  else (case netmap_confbuf_post_write h2 i1 s of
                          None \<Rightarrow> None
                        | Some i2 \<Rightarrow> self h2 i2 uio2)))
      else Some (0, h', i', uio')) = Some r'"
    show "(h', i', uio') \<noteq> (h, i, uio)"
    proof
      assume "(h', i', uio') = (h, i, uio)"
      with body it assms(1) have "self h i uio = Some r'" by simp
      from IH [OF this] show False by simp
    qed
  qed
  then show False by simp
qed

text \<open>
  Claim C4 says that \<open>n_data\<close> never exceeds \<open>NM_CBDATAMAX\<close> under any sequence of
  calls, that once the cap is reached \<open>netmap_confbuf_pre_write\<close> refuses to allocate and
  returns \<open>NULL\<close>, and that a single write call supplying more bytes than \<open>NM_CBDATAMAX\<close>
  times \<open>NM_CBDATASIZ\<close> therefore returns \<open>ENOMEM\<close>. The first two parts hold
  (\<open>segment_cap_enforced\<close>). The last one fails for a write call of \<open>2 ^ 32\<close> bytes on the
  empty channel: \<open>int s = uio->uio_resid\<close> keeps the low 32 bits of the count, which are 0.
  The first iteration allocates the first chunk for a request of 0 bytes and moves nothing.
  Every further iteration finds room in that chunk, is defined at each step, and ends in
  the state in which it began, with the byte count unchanged. The loop never ends, and
  the call returns neither \<open>ENOMEM\<close> nor anything else.
\<close>

theorem write_of_4g_bytes_never_returns:
  "unat NM_CBDATAMAX * unat NM_CBDATASIZ < uio_resid uio_4g
   \<and> uio_resid uio_4g \<le> length (uio_mem uio_4g)
   \<and> netmap_confbuf_pre_write mem_empty zero_confbuf (of_nat (uio_resid uio_4g)) True
         = Some (Some ((1, 0), 0), mem_one, buf_one)
   \<and> netmap_confbuf_pre_write mem_one buf_one (of_nat (uio_resid uio_4g)) True
         = Some (Some ((1, 0), 0), mem_one, buf_one)
   \<and> uiomove mem_one (1, 0) (sint (0::u_int)) uio_4g = Some (0, mem_one, uio_4g)
   \<and> netmap_confbuf_post_write mem_one buf_one 0 = Some buf_one
   \<and> netmap_config_write mem_empty chan_zero uio_4g = None"
proof -
  have big: "unat NM_CBDATAMAX * unat NM_CBDATASIZ < uio_resid uio_4g"
    "uio_resid uio_4g \<le> length (uio_mem uio_4g)"
    by (simp_all add: uio_4g_def NM_CBDATAMAX_def NM_CBDATASIZ_def)
  have d: "netmap_confbuf_destroy mem_empty (buf1 chan_zero) = Some (mem_empty, zero_confbuf)"
    by (simp add: netmap_confbuf_destroy_def chan_zero_def zero_confbuf_def destroy_loop.simps)
  have z: "(of_nat (uio_resid uio_4g) :: u_int) = 0" by (simp add: uio_4g_def)
  have p: "0 < uio_resid uio_4g" by (simp add: uio_4g_def)
  have "netmap_confbuf_pre_write mem_empty zero_confbuf 0 True
               = Some (Some ((1, 0), 0), mem_one, buf_one)"
    by (simp add: model_defs mem_empty_def mem_one_def buf_one_def Let_def
        word_le_nat_alt word_less_nat_alt zero_confbuf_def)
  with z have pre: "netmap_confbuf_pre_write mem_empty zero_confbuf (of_nat (uio_resid uio_4g)) True
               = Some (Some ((1, 0), 0), mem_one, buf_one)"
    by simp
  have c: "objs mem_one 1
             = Some \<lparr>d_chain = None, d_size = 1024, d_data = (\<lambda>i. 0x5A), d_alloc = 1024\<rparr>"
    by (simp add: mem_one_def)
  have spin: "config_write_loop mem_one buf_one uio_4g = None"
    using p z
    by (rule write_loop_spins [OF _ _ _ c]) (simp_all add: buf_one_def uio_4g_def)
  from write_iteration_zero [OF p z _ c, of buf_one]
  have it: "netmap_confbuf_pre_write mem_one buf_one (of_nat (uio_resid uio_4g)) True
         = Some (Some ((1, 0), 0), mem_one, buf_one)"
    "uiomove mem_one (1, 0) (sint (0::u_int)) uio_4g = Some (0, mem_one, uio_4g)"
    "netmap_confbuf_post_write mem_one buf_one 0 = Some buf_one"
    by (simp_all add: buf_one_def uio_4g_def)
  from spin it(2,3) have "config_write_loop mem_empty zero_confbuf uio_4g = None"
    using p pre by (subst config_write_loop.simps) simp
  with d have "netmap_config_write mem_empty chan_zero uio_4g = None"
    by (simp add: netmap_config_write_def chan_zero_def)
  with big pre it show ?thesis by (intro conjI)
qed

section \<open>Peek and consume\<close>

lemma pre_read_hit:
  "objs h a = Some c \<Longrightarrow> n < d_size c \<Longrightarrow>
   pre_read_loop h (Some a) n sz = Some (Some (a, n), clip (d_size c - n) sz)"
  by (subst pre_read_loop.simps) (simp add: clip_def Let_def)

lemma pre_read_skip:
  "objs h a = Some c \<Longrightarrow> \<not> n < d_size c \<Longrightarrow>
   pre_read_loop h (Some a) n sz = pre_read_loop h (d_chain c) 0 sz"
  by (subst pre_read_loop.simps) simp

lemma pre_read_end: "pre_read_loop h None n sz = Some (None, 0)"
  by (subst pre_read_loop.simps) simp

lemma peek_hit:
  assumes "objs h a = Some c" "n < d_size c" "unat (d_size c) \<le> d_alloc c"
    "pre_read_loop h (readp cb) (next_r cb) 1 = pre_read_loop h (Some a) n 1"
  shows "netmap_confbuf_peek h cb = Some (sint (d_data c (unat n)), h, cb)"
proof -
  from assms(2) have "unat n < unat (d_size c)" by (simp add: word_less_nat_alt)
  with assms(3) have "unat n < d_alloc c" by simp
  with assms(1,4) pre_read_hit [OF assms(1,2), of 1] show ?thesis
    by (simp add: netmap_confbuf_peek_def netmap_confbuf_pre_read_def)
qed

lemma bytes_from_hit:
  "objs h a = Some c \<Longrightarrow> n < d_size c \<Longrightarrow>
   bytes_from h (unat n) a = d_data c (unat n) # bytes_from h (Suc (unat n)) a"
  by (simp add: bytes_from_def word_less_nat_alt upt_conv_Cons)

lemma bytes_from_end:
  "objs h a = Some c \<Longrightarrow> \<not> n < d_size c \<Longrightarrow> bytes_from h (unat n) a = []"
  by (simp add: bytes_from_def word_less_nat_alt)

lemma peek_served:
  assumes "rd_inv h cb as"
  shows "netmap_confbuf_peek h cb =
           Some ((case served h cb as of [] \<Rightarrow> 0 | y # ys \<Rightarrow> sint y), h, cb)"
proof (cases as)
  case Nil
  with assms have "readp cb = None" by (simp add: rd_inv_def)
  with Nil show ?thesis
    by (simp add: netmap_confbuf_peek_def netmap_confbuf_pre_read_def pre_read_end served_def)
next
  case (Cons a rest)
  with assms obtain c where c: "readp cb = Some a" "objs h a = Some c"
      "chain_path h (d_chain c) rest" "unat (d_size c) \<le> d_alloc c" "next_r cb \<le> d_size c"
    and rs: "list_all (chunk_sat h (\<lambda>c. 0 < d_size c)) rest"
      "list_all (chunk_sat h (\<lambda>c. unat (d_size c) \<le> d_alloc c)) rest"
    by (auto simp: rd_inv_def chunk_sat_def split: option.splits)
  show ?thesis
  proof (cases "next_r cb < d_size c")
    case True
    from peek_hit [OF c(2) True c(4)] c(1)
    have "netmap_confbuf_peek h cb = Some (sint (d_data c (unat (next_r cb))), h, cb)" by simp
    with Cons bytes_from_hit [OF c(2) True] show ?thesis by (simp add: served_def)
  next
    case False
    note e = bytes_from_end [OF c(2) False]
    note sk = pre_read_skip [OF c(2) False]
    show ?thesis
    proof (cases rest)
      case Nil
      with c(3) have "d_chain c = None" by simp
      with sk c(1) Nil Cons e show ?thesis
        by (simp add: netmap_confbuf_peek_def netmap_confbuf_pre_read_def pre_read_end served_def)
    next
      case (Cons b rest')
      with c(3) rs obtain c' where c': "d_chain c = Some b" "objs h b = Some c'"
          "0 < d_size c'" "unat (d_size c') \<le> d_alloc c'"
        by (auto simp: chunk_sat_def split: option.splits)
      have "pre_read_loop h (readp cb) (next_r cb) 1 = pre_read_loop h (Some b) 0 1"
        using sk c(1) c'(1) by simp
      from peek_hit [OF c'(2,3,4) this]
      have "netmap_confbuf_peek h cb = Some (sint (d_data c' 0), h, cb)" by simp
      with \<open>as = a # rest\<close> Cons e bytes_from_hit [OF c'(2,3)] show ?thesis
        by (simp add: served_def)
    qed
  qed
qed


lemma unat_succ_lt: "(n::u_int) < m \<Longrightarrow> unat (n + 1) = Suc (unat n) \<and> n + 1 \<le> m"
proof -
  assume lt: "n < m"
  then have l: "unat n < unat m" by (simp add: word_less_nat_alt)
  have "unat m < 2 ^ LENGTH(32)" by (rule unsigned_less)
  with l have "unat n + unat (1::u_int) < 2 ^ LENGTH(32)" by simp
  then have "unat (n + 1) = unat n + unat (1::u_int)" by (simp only: unat_add_lem)
  then have u: "unat (n + 1) = Suc (unat n)" by simp
  with l show ?thesis by (simp add: word_le_nat_alt)
qed

lemma word_one_le: "0 < (m::u_int) \<Longrightarrow> 1 \<le> m"
  using unat_succ_lt [of 0 m] by simp

lemma bytes_from_cong: "objs h1 a = objs h a \<Longrightarrow> bytes_from h1 lo a = bytes_from h lo a"
  by (simp add: bytes_from_def)

lemma map_bytes_from_cong:
  "(\<And>y. y \<in> set ys \<Longrightarrow> objs h1 y = objs h y) \<Longrightarrow>
   map (bytes_from h1 lo) ys = map (bytes_from h lo) ys"
  by (induction ys) (simp_all add: bytes_from_def)

lemma list_all_chunk_sat_cong:
  "(\<And>y. y \<in> set ys \<Longrightarrow> objs h1 y = objs h y) \<Longrightarrow>
   list_all (chunk_sat h1 P) ys = list_all (chunk_sat h P) ys"
  by (induction ys) (simp_all add: chunk_sat_def)

lemma consume_served:
  assumes inv: "rd_inv h cb as" and nonempty: "served h cb as = x # xs"
  shows "\<exists>h1 cb1 as1. netmap_confbuf_consume h cb = Some (h1, cb1)
           \<and> rd_inv h1 cb1 as1 \<and> served h1 cb1 as1 = xs"
proof (cases as)
  case Nil
  with nonempty show ?thesis by (simp add: served_def)
next
  case (Cons a rest)
  with inv obtain c where c: "readp cb = Some a" "objs h a = Some c"
      "chain_path h (d_chain c) rest" "unat (d_size c) \<le> d_alloc c" "next_r cb \<le> d_size c"
    and rs: "list_all (chunk_sat h (\<lambda>c. 0 < d_size c)) rest"
      "list_all (chunk_sat h (\<lambda>c. unat (d_size c) \<le> d_alloc c)) rest"
    by (auto simp: rd_inv_def chunk_sat_def split: option.splits)
  show ?thesis
  proof (cases "next_r cb < d_size c")
    case True
    then have ne: "next_r cb \<noteq> d_size c" by auto
    note su = unat_succ_lt [OF True]
    define cb1 where "cb1 = cb\<lparr>next_r := next_r cb + 1\<rparr>"
    have cs: "netmap_confbuf_consume h cb = Some (h, cb1)"
      using post_read_eq [OF c(1,2), of 1] ne by (simp add: netmap_confbuf_consume_def cb1_def)
    have i1: "rd_inv h cb1 as"
      using inv Cons c(2) su by (simp add: rd_inv_def cb1_def chunk_sat_def)
    have "served h cb1 as = xs"
      using nonempty Cons bytes_from_hit [OF c(2) True] su
      by (simp add: served_def cb1_def)
    with cs i1 show ?thesis by blast
  next
    case False
    with c(5) have full: "next_r cb = d_size c" by auto
    note e = bytes_from_end [OF c(2) False]
    from nonempty Cons e have rest_bytes: "concat (map (bytes_from h 0) rest) = x # xs"
      by (simp add: served_def)
    then obtain b rest' where r: "rest = b # rest'" by (cases rest) auto
    with c(3) rs obtain c' where c': "d_chain c = Some b" "objs h b = Some c'"
        "0 < d_size c'" "unat (d_size c') \<le> d_alloc c'"
      by (auto simp: chunk_sat_def split: option.splits)
    define h1 where "h1 = free h a"
    define cb1 where "cb1 = cb\<lparr>readp := d_chain c, next_r := 1, n_data := n_data cb - 1\<rparr>"
    have cs: "netmap_confbuf_consume h cb = Some (h1, cb1)"
      using post_read_eq [OF c(1,2), of 1] full
      by (simp add: netmap_confbuf_consume_def cb1_def h1_def)
    from inv Cons have "chain_path h (readp cb) (a # rest)" by (simp add: rd_inv_def)
    from chain_path_distinct [OF this] have nin: "a \<notin> set rest" by simp
    then have same: "\<And>y. y \<in> set rest \<Longrightarrow> objs h1 y = objs h y"
      by (auto simp: h1_def objs_free)
    have p: "chain_path h1 (d_chain c) rest"
      using chain_path_cong [of rest h1 h "d_chain c"] same c(3) by simp
    have a1: "list_all (chunk_sat h1 (\<lambda>c. unat (d_size c) \<le> d_alloc c)) rest"
      using rs(2) list_all_chunk_sat_cong [of rest h1 h, OF same] by simp
    have "list_all (chunk_sat h1 (\<lambda>c. 0 < d_size c)) rest"
      using rs(1) list_all_chunk_sat_cong [of rest h1 h, OF same] by simp
    then have a2: "list_all (chunk_sat h1 (\<lambda>c. 0 < d_size c)) rest'"
      using r by simp
    have a3: "chunk_sat h1 (\<lambda>c. 1 \<le> d_size c) b"
      using same [of b] r c'(2,3) by (simp add: chunk_sat_def word_one_le)
    have i1: "rd_inv h1 cb1 rest"
      using p a1 a2 a3 r by (simp add: rd_inv_def cb1_def)
    have b0: "bytes_from h 0 b = d_data c' 0 # bytes_from h (Suc 0) b"
      using bytes_from_hit [OF c'(2,3)] by simp
    have "map (bytes_from h1 0) rest' = map (bytes_from h 0) rest'"
      using same r by (intro map_bytes_from_cong) simp
    then have m: "concat (map (bytes_from h1 0) rest') = concat (map (bytes_from h 0) rest')"
      by (rule arg_cong)
    have bs: "bytes_from h1 (Suc 0) b = bytes_from h (Suc 0) b"
      using same [of b] r by (intro bytes_from_cong) simp
    have tl: "bytes_from h (Suc 0) b @ concat (map (bytes_from h 0) rest') = xs"
      using rest_bytes r b0 by simp
    have "served h1 cb1 rest = bytes_from h1 (Suc 0) b @ concat (map (bytes_from h1 0) rest')"
      by (simp add: served_def cb1_def r)
    then have "served h1 cb1 rest = xs"
      unfolding m bs tl .
    with cs i1 show ?thesis by blast
  qed
qed


text \<open>
  What peek and consume do on a read side that satisfies \<open>rd_inv\<close>, as every buffer
  filled by write calls does (\<open>written_channel_inv\<close>): while \<open>served\<close> is not empty,
  \<open>netmap_confbuf_peek\<close> returns its first byte and leaves memory and buffer unchanged,
  so that repeating it returns the same byte; \<open>netmap_confbuf_consume\<close> removes that byte
  from \<open>served\<close>; and the next \<open>netmap_confbuf_peek\<close> returns the next byte of
  \<open>served\<close>, or 0 when none is left. \<open>served\<close> ends where the chunks end, not where
  the written bytes end.
\<close>

lemma peek_consume_served:
  assumes inv: "rd_inv h cb as" and nonempty: "served h cb as = x # xs"
  shows "netmap_confbuf_peek h cb = Some (sint x, h, cb)
     \<and> (\<exists>h1 cb1 as1. netmap_confbuf_consume h cb = Some (h1, cb1)
           \<and> rd_inv h1 cb1 as1 \<and> served h1 cb1 as1 = xs
           \<and> netmap_confbuf_peek h1 cb1 = Some ((case xs of [] \<Rightarrow> 0 | y # ys \<Rightarrow> sint y), h1, cb1))"
proof -
  from peek_served [OF inv] nonempty
  have "netmap_confbuf_peek h cb = Some (sint x, h, cb)" by simp
  moreover from consume_served [OF inv nonempty]
  obtain h1 cb1 as1 where c: "netmap_confbuf_consume h cb = Some (h1, cb1)"
      "rd_inv h1 cb1 as1" "served h1 cb1 as1 = xs" by blast
  from peek_served [OF c(2)] c(3)
  have "netmap_confbuf_peek h1 cb1 = Some ((case xs of [] \<Rightarrow> 0 | y # ys \<Rightarrow> sint y), h1, cb1)"
    by simp
  with c have "\<exists>h1 cb1 as1. netmap_confbuf_consume h cb = Some (h1, cb1)
           \<and> rd_inv h1 cb1 as1 \<and> served h1 cb1 as1 = xs
           \<and> netmap_confbuf_peek h1 cb1 = Some ((case xs of [] \<Rightarrow> 0 | y # ys \<Rightarrow> sint y), h1, cb1)"
    by blast
  ultimately show ?thesis by simp
qed

lemma peek_consume_served_example:
  "rd_inv mem_pair buf_pair [1, 2]
   \<and> served mem_pair buf_pair [1, 2] = 0x42 # bytes_from mem_pair 0 2
   \<and> netmap_confbuf_peek mem_pair buf_pair = Some (66, mem_pair, buf_pair)
   \<and> (\<exists>h1 cb1. netmap_confbuf_consume mem_pair buf_pair = Some (h1, cb1)
          \<and> netmap_confbuf_peek h1 cb1 = Some (67, h1, cb1))"
proof -
  have inv: "rd_inv mem_pair buf_pair [1, 2]"
    by (simp add: rd_inv_def chunk_sat_def mem_pair_def buf_pair_def word_le_nat_alt
        word_less_nat_alt)
  have c1: "objs mem_pair 1 = Some \<lparr>d_chain = Some 2, d_size = 1024,
                    d_data = (\<lambda>i. if i = 1023 then 0x42 else 0x41), d_alloc = 1024\<rparr>"
    and c2: "objs mem_pair 2 = Some \<lparr>d_chain = None, d_size = 1024, d_data = (\<lambda>i. 0x43),
                    d_alloc = 1024\<rparr>"
    by (simp_all add: mem_pair_def)
  have l1: "(1023::u_int) < 1024" and l2: "\<not> (1024::u_int) < 1024" and l3: "(0::u_int) < 1024"
    by (simp_all add: word_less_nat_alt)
  have b1: "bytes_from mem_pair (unat (1023::u_int)) 1
              = 0x42 # bytes_from mem_pair (Suc (unat (1023::u_int))) 1"
    using bytes_from_hit [OF c1, of 1023] l1 by simp
  have b2: "bytes_from mem_pair (Suc (unat (1023::u_int))) 1 = []"
    using bytes_from_end [OF c1, of 1024] l2 by simp
  have b3: "bytes_from mem_pair 0 2 = 0x43 # bytes_from mem_pair (Suc 0) 2"
    using bytes_from_hit [OF c2, of 0] l3 by simp
  have "served mem_pair buf_pair [1, 2]
          = bytes_from mem_pair (unat (1023::u_int)) 1 @ bytes_from mem_pair 0 2"
    by (simp add: served_def buf_pair_def)
  then have un: "served mem_pair buf_pair [1, 2] = 0x42 # bytes_from mem_pair 0 2"
    unfolding b1 b2 by simp
  have nx: "(case bytes_from mem_pair 0 2 of [] \<Rightarrow> 0 | y # ys \<Rightarrow> sint y) = 67"
    unfolding b3 by simp
  note t = peek_consume_served [OF inv un]
  have p: "netmap_confbuf_peek mem_pair buf_pair = Some (66, mem_pair, buf_pair)"
    using t [THEN conjunct1] by simp
  from t [THEN conjunct2] nx
  have "\<exists>h1 cb1. netmap_confbuf_consume mem_pair buf_pair = Some (h1, cb1)
          \<and> netmap_confbuf_peek h1 cb1 = Some (67, h1, cb1)"
    by auto
  with inv un p show ?thesis by (intro conjI)
qed

text \<open>
  Claim C8 says that repeated peeks without a consume in between return the same byte, and
  that a peek after a consume returns the next byte in FIFO order or reports the end of the
  stream if none remain. The first part holds. The second fails when the bytes written are
  used up: \<open>netmap_confbuf_pre_read\<close> bounds a region by the size of the chunk and never
  looks at \<open>next_w\<close>. After one write call with the two bytes \<open>AB\<close> on the empty channel,
  peek and consume deliver \<open>A\<close> and \<open>B\<close>; the read offset has then caught up with the
  write offset in the one chunk there is, no byte remains, and the next peek returns 90,
  the content of storage that was never written, and not the 0 that stands for the end of
  the stream.
\<close>

theorem peek_past_last_written_byte:
  "(case config_writes mem_empty chan_zero [write_req [0x41, 0x42]] of
      None \<Rightarrow> False
    | Some (rets, h, c) \<Rightarrow>
        rets = [0] \<and>
        (case peek_consume_run h (buf0 c) (Suc (Suc 0)) of
           None \<Rightarrow> False
         | Some (xs, h1, cb1) \<Rightarrow>
             xs = [0x41, 0x42] \<and> readp cb1 = writep cb1 \<and> next_r cb1 = 2 \<and> next_w cb1 = 2
             \<and> netmap_confbuf_peek h1 cb1 = Some (0x5A, h1, cb1)))"
  by (simp add: eval_defs write_req_def mem_empty_def chan_zero_def netmap_confbuf_consume_def)

section \<open>States reached by write calls\<close>

text \<open>
  Whatever the requests are, and whether the calls succeed, run out of chunks or fail in
  the transport, every sequence of \<open>netmap_config_write\<close> calls on the empty channel
  leaves the output buffer zeroed and the input buffer in a state that satisfies both
  \<open>wr_inv\<close> and \<open>rd_inv\<close>: the hypotheses of the lemmas on the segment cap and on
  peek and consume hold in all these states.
\<close>

lemma list_all_chunk_sat_mono:
  "list_all (chunk_sat h P) as \<Longrightarrow> (\<And>c. P c \<Longrightarrow> Q c) \<Longrightarrow> list_all (chunk_sat h Q) as"
  by (induction as) (auto simp: chunk_sat_def split: option.splits)

lemma fill_inv_rd_inv: "fill_inv h cb as \<Longrightarrow> rd_inv h cb as"
proof -
  assume f: "fill_inv h cb as"
  then have l: "list_all (chunk_sat h (\<lambda>c. 0 < d_size c \<and> unat (d_size c) \<le> d_alloc c)) as"
    by (simp add: fill_inv_def)
  have a: "list_all (chunk_sat h (\<lambda>c. unat (d_size c) \<le> d_alloc c)) as"
    using l by (rule list_all_chunk_sat_mono) simp
  have b: "list_all (chunk_sat h (\<lambda>c. 0 < d_size c)) as"
    using l by (rule list_all_chunk_sat_mono) simp
  show ?thesis
    using f a b by (cases as) (auto simp: fill_inv_def rd_inv_def)
qed

lemma fill_inv_zero: "alloc_ok h \<Longrightarrow> fill_inv h zero_confbuf []"
  by (simp add: fill_inv_def wr_inv_def zero_confbuf_def NM_CBDATAMAX_def)

lemma uiomove_frame:
  "uiomove h p n uio = Some (ret, h2, uio2) \<Longrightarrow>
   h2 = h \<or> (\<exists>g. h2 = store h (fst p) (\<lambda>c. c\<lparr>d_data := g c\<rparr>))"
  by (cases "uio_rw uio") (auto simp: uiomove_def Let_def split: option.splits if_splits)

lemma frame_chain_path:
  assumes "h2 = h \<or> (\<exists>g. h2 = store h a (\<lambda>c. c\<lparr>d_data := g c\<rparr>))"
  shows "chain_path h2 p as = chain_path h p as"
  using assms
proof
  assume "h2 = h" then show ?thesis by simp
next
  assume "\<exists>g. h2 = store h a (\<lambda>c. c\<lparr>d_data := g c\<rparr>)"
  then obtain g where h2: "h2 = store h a (\<lambda>c. c\<lparr>d_data := g c\<rparr>)" by blast
  show ?thesis unfolding h2
    by (induction as arbitrary: p) (auto simp: objs_store split: option.splits)
qed

lemma chunk_sat_store_data:
  assumes "\<And>c g. P (c\<lparr>d_data := g\<rparr>) = P c"
  shows "chunk_sat (store h a (\<lambda>c. c\<lparr>d_data := g c\<rparr>)) P x = chunk_sat h P x"
proof (cases "x = a")
  case True
  then show ?thesis
    by (cases "objs h a") (simp_all add: chunk_sat_def objs_store assms)
next
  case False
  then show ?thesis by (simp add: chunk_sat_def objs_store)
qed

lemma frame_chunk_sat:
  assumes "h2 = h \<or> (\<exists>g. h2 = store h a (\<lambda>c. c\<lparr>d_data := g c\<rparr>))"
    and "\<And>c g. P (c\<lparr>d_data := g\<rparr>) = P c"
  shows "chunk_sat h2 P x = chunk_sat h P x"
  using assms(1) chunk_sat_store_data [of P h a _ x, OF assms(2)] by auto

lemma frame_list_all:
  assumes "h2 = h \<or> (\<exists>g. h2 = store h a (\<lambda>c. c\<lparr>d_data := g c\<rparr>))"
    and "\<And>c g. P (c\<lparr>d_data := g\<rparr>) = P c"
  shows "list_all (chunk_sat h2 P) as = list_all (chunk_sat h P) as"
  by (induction as) (simp_all add: frame_chunk_sat [OF assms])

lemma frame_wr_inv:
  assumes "h2 = h \<or> (\<exists>g. h2 = store h a (\<lambda>c. c\<lparr>d_data := g c\<rparr>))"
  shows "wr_inv h2 cb = wr_inv h cb"
proof -
  have a: "alloc_ok h2 = alloc_ok h" using assms by (auto simp: alloc_ok_store)
  have "\<And>w. (case objs h2 w of None \<Rightarrow> False
            | Some wc \<Rightarrow> next_w cb \<le> d_size wc \<and> d_size wc \<le> NM_CBDATASIZ
                \<and> unat (d_size wc) \<le> d_alloc wc)
        = (case objs h w of None \<Rightarrow> False
            | Some wc \<Rightarrow> next_w cb \<le> d_size wc \<and> d_size wc \<le> NM_CBDATASIZ
                \<and> unat (d_size wc) \<le> d_alloc wc)"
    using frame_chunk_sat [OF assms, of "\<lambda>wc. next_w cb \<le> d_size wc \<and> d_size wc \<le> NM_CBDATASIZ
                \<and> unat (d_size wc) \<le> d_alloc wc"]
    by (simp add: chunk_sat_def)
  with a show ?thesis by (cases "writep cb") (simp_all add: wr_inv_def)
qed

lemma frame_fill_inv:
  assumes "h2 = h \<or> (\<exists>g. h2 = store h a (\<lambda>c. c\<lparr>d_data := g c\<rparr>))"
  shows "fill_inv h2 cb as = fill_inv h cb as"
proof -
  have "(case readp cb of None \<Rightarrow> next_r cb = 0
          | Some r \<Rightarrow> chunk_sat h2 (\<lambda>c. next_r cb \<le> d_size c) r)
      = (case readp cb of None \<Rightarrow> next_r cb = 0
          | Some r \<Rightarrow> chunk_sat h (\<lambda>c. next_r cb \<le> d_size c) r)"
    by (cases "readp cb") (simp_all add: frame_chunk_sat [OF assms])
  then show ?thesis
    unfolding fill_inv_def
    by (simp add: frame_wr_inv [OF assms] frame_chain_path [OF assms] frame_list_all [OF assms])
qed

lemma frame_post_write:
  assumes "h2 = h \<or> (\<exists>g. h2 = store h a (\<lambda>c. c\<lparr>d_data := g c\<rparr>))"
  shows "netmap_confbuf_post_write h2 cb sz = netmap_confbuf_post_write h cb sz"
proof (cases "writep cb")
  case None
  then show ?thesis by (simp add: netmap_confbuf_post_write_def)
next
  case (Some w)
  show ?thesis
  proof (cases "objs h w")
    case None
    with Some assms show ?thesis
      by (auto simp: netmap_confbuf_post_write_def objs_store)
  next
    case (Some wc)
    from data_upd_frame(2) [OF assms Some]
    obtain wc2 where "objs h2 w = Some wc2" "d_size wc2 = d_size wc" "d_chain wc2 = d_chain wc"
      by auto
    with Some \<open>writep cb = Some w\<close> show ?thesis
      by (simp add: netmap_confbuf_post_write_def)
  qed
qed

lemma word_add_le_sub:
  "(n::u_int) \<le> m \<Longrightarrow> s \<le> m - n \<Longrightarrow> n + s \<le> m"
proof -
  assume a: "n \<le> m" "s \<le> m - n"
  from a(1) have d: "unat (m - n) = unat m - unat n" by (rule unat_sub)
  from a(1) have l: "unat n \<le> unat m" by (simp add: word_le_nat_alt)
  from a(2) d have s: "unat s \<le> unat m - unat n" by (simp add: word_le_nat_alt)
  have "unat m < 2 ^ LENGTH(32)" by (rule unsigned_less)
  with l s have "unat n + unat s < 2 ^ LENGTH(32)" by simp
  then have "unat (n + s) = unat n + unat s" by (simp only: unat_add_lem)
  with l s show ?thesis by (simp add: word_le_nat_alt)
qed


lemma list_all_chunk_satD:
  "list_all (chunk_sat h P) as \<Longrightarrow> x \<in> set as \<Longrightarrow> objs h x = Some c \<Longrightarrow> P c"
  by (auto simp: list_all_iff chunk_sat_def)

lemma fill_pre_post:
  assumes inv: "fill_inv h i as"
    and pre: "netmap_confbuf_pre_write h i req True = Some (Some ((a, b), s), h1, i1)"
  shows "\<exists>as1 i2. fill_inv h1 i1 as1 \<and> netmap_confbuf_post_write h1 i1 s = Some i2
           \<and> fill_inv h1 i2 as1"
proof -
  from inv have wr: "wr_inv h i" and cp: "chain_path h (readp i) as"
    and la: "list_all (chunk_sat h (\<lambda>c. 0 < d_size c \<and> unat (d_size c) \<le> d_alloc c)) as"
    and hd: "case readp i of None \<Rightarrow> next_r i = 0
             | Some r \<Rightarrow> chunk_sat h (\<lambda>c. next_r i \<le> d_size c) r"
    and wi: "case writep i of None \<Rightarrow> True | Some w \<Rightarrow> w \<in> set as"
    by (simp_all add: fill_inv_def)
  from wr have ok: "alloc_ok h" and cap: "n_data i \<le> NM_CBDATAMAX" by (simp_all add: wr_inv_def)
  from pre show ?thesis
  proof (cases rule: pre_write_SomeE)
    case (room dc)
    from wr room(1,2) have f: "next_w i \<le> d_size dc" "d_size dc \<le> NM_CBDATASIZ"
        "unat (d_size dc) \<le> d_alloc dc" "n_data i \<noteq> 0" "readp i \<noteq> None"
      by (simp_all add: wr_inv_def)
    from room(3,4) have ne: "next_w i \<noteq> d_size dc" by auto
    define i2 where "i2 = i\<lparr>next_w := next_w i + s\<rparr>"
    have pw: "netmap_confbuf_post_write h1 i1 s = Some i2"
      using post_write_eq [OF room(1,2), of s] ne room(7,8) by (simp add: i2_def)
    have "s \<le> d_size dc - next_w i" using room(6) by (simp add: clip_le_avail)
    with f(1) have "next_w i + s \<le> d_size dc" by (rule word_add_le_sub)
    then have "wr_inv h i2"
      using wr room(1,2) f by (simp add: wr_inv_def i2_def)
    then have "fill_inv h i2 as"
      using cp la hd wi by (cases "readp i") (simp_all add: fill_inv_def i2_def)
    with inv pw room(7,8) show ?thesis by auto
  next
    case first
    from wr first(1) have f: "readp i = None" "next_w i = 0" by (simp_all add: wr_inv_def)
    from f(1) hd have nr: "next_r i = 0" by simp
    from first(2) show ?thesis
    proof (cases rule: pre_write_expand_SomeE)
      case (1 sz h0)
      note al = alloc_ok_malloc [OF ok 1(3)]
      note nd = n_data_succ [OF 1(1)]
      have sz: "sz = NM_CBDATASIZ" using 1(2) by simp
      have h1: "h1 = store h0 a (\<lambda>c. c\<lparr>d_size := sz, d_chain := None\<rparr>)" using 1(6) by simp
      have i1: "i1 = i\<lparr>n_data := n_data i + 1, readp := Some a, writep := Some a\<rparr>"
        using 1(7) f(1) by simp
      define c where "c = \<lparr>d_chain = None, d_size = sz, d_data = junk h a,
                    d_alloc = sizeof_nm_confbuf_data + unat sz - sizeof_nm_confbuf_data\<rparr>"
      have c: "objs h1 a = Some c" using h1 al(4) by (simp add: objs_store c_def)
      have ok1: "alloc_ok h1" using h1 al(1) by (simp add: alloc_ok_store)
      have cs: "d_size c = NM_CBDATASIZ" "unat (d_size c) \<le> d_alloc c" "0 < d_size c"
          "d_chain c = None"
        using sz by (simp_all add: c_def NM_CBDATASIZ_def)
      have s: "s \<le> d_size c" using 1(5) sz cs(1) by (simp add: clip_le_avail)
      have w1: "wr_inv h1 i1"
        using ok1 nd c cs i1 f(2) by (simp add: wr_inv_def)
      have inv1: "fill_inv h1 i1 [a]"
        using w1 c cs i1 nr by (simp add: fill_inv_def chunk_sat_def)
      define i2 where "i2 = i1\<lparr>next_w := s\<rparr>"
      have "next_w i1 \<noteq> d_size c" using i1 f(2) cs(1) by (simp add: NM_CBDATASIZ_def)
      then have pw: "netmap_confbuf_post_write h1 i1 s = Some i2"
        using post_write_eq [of i1 a h1 c s] c i1 f(2) by (simp add: i2_def)
      have w2: "wr_inv h1 i2"
        using ok1 nd c cs i1 s by (simp add: wr_inv_def i2_def)
      have inv2: "fill_inv h1 i2 [a]"
        using w2 c cs i1 nr by (simp add: fill_inv_def chunk_sat_def i2_def)
      from inv1 pw inv2 show ?thesis by blast
    qed
  next
    case (grow w dc)
    from wr grow(1,2) have f: "next_w i \<le> d_size dc" "readp i \<noteq> None"
        "d_size dc \<le> NM_CBDATASIZ" "unat (d_size dc) \<le> d_alloc dc"
      by (simp_all add: wr_inv_def)
    from grow(3) have "\<not> 0 < d_size dc - next_w i" by simp
    then have "d_size dc - next_w i = 0" by (rule word_not_pos)
    then have full: "next_w i = d_size dc" by (rule word_diff_zero)
    from wi grow(1) have win: "w \<in> set as" by simp
    then obtain pre post where sp: "as = pre @ w # post" by (auto dest: split_list)
    from chain_path_distinct [OF cp] sp have wpre: "w \<notin> set pre" by simp
    from list_all_chunk_satD [OF la win grow(2)] have wpos: "0 < d_size dc" by simp
    from grow(4) show ?thesis
    proof (cases rule: pre_write_expand_SomeE)
      case (1 sz h0)
      note al = alloc_ok_malloc [OF ok 1(3)]
      note nd = n_data_succ [OF 1(1)]
      have sz: "sz = NM_CBDATASIZ" using 1(2) by simp
      have wa: "w \<noteq> a" using al(3) grow(2) by auto
      have h1: "h1 = store (store h0 a (\<lambda>c. c\<lparr>d_size := sz, d_chain := None\<rparr>)) w
                        (\<lambda>c. c\<lparr>d_size := next_w i, d_chain := Some a\<rparr>)" using 1(6) by simp
      have i1: "i1 = i\<lparr>n_data := n_data i + 1\<rparr>" using 1(7) f(2) by simp
      define c where "c = \<lparr>d_chain = None, d_size = sz, d_data = junk h a,
                    d_alloc = sizeof_nm_confbuf_data + unat sz - sizeof_nm_confbuf_data\<rparr>"
      define wc where "wc = dc\<lparr>d_size := next_w i, d_chain := Some a\<rparr>"
      have c: "objs h1 a = Some c" using h1 al(4) wa by (simp add: objs_store c_def)
      have wc: "objs h1 w = Some wc" using h1 al(4) wa grow(2) by (simp add: objs_store wc_def)
      have ok1: "alloc_ok h1" using h1 al(1) by (simp add: alloc_ok_store)
      have cs: "d_size c = NM_CBDATASIZ" "unat (d_size c) \<le> d_alloc c" "0 < d_size c"
          "d_chain c = None"
        using sz by (simp_all add: c_def NM_CBDATASIZ_def)
      have ws: "d_size wc = d_size dc" "d_alloc wc = d_alloc dc" "d_chain wc = Some a"
        using full by (simp_all add: wc_def)
      have same: "\<And>x. x \<noteq> a \<Longrightarrow> x \<noteq> w \<Longrightarrow> objs h1 x = objs h x"
        using h1 al(4) by (simp add: objs_store)
      have npre: "\<And>x. x \<in> set pre \<Longrightarrow> x \<noteq> a \<and> x \<noteq> w"
      proof -
        fix x assume x: "x \<in> set pre"
        with sp have "x \<in> set as" by simp
        with cp have "objs h x \<noteq> None" by (rule chain_path_allocated)
        with al(3) have "x \<noteq> a" by auto
        with x wpre show "x \<noteq> a \<and> x \<noteq> w" by auto
      qed
      have samep: "\<And>x. x \<in> set pre \<Longrightarrow> objs h1 x = objs h x"
        using npre same by simp
      have p: "chain_path h1 (readp i) (pre @ [w, a])"
        using cp [unfolded sp] samep wc ws(3) c cs(4) by (rule chain_path_relink)
      have "list_all (chunk_sat h (\<lambda>c. 0 < d_size c \<and> unat (d_size c) \<le> d_alloc c)) pre"
        using la sp by simp
      then have lp: "list_all (chunk_sat h1 (\<lambda>c. 0 < d_size c \<and> unat (d_size c) \<le> d_alloc c)) pre"
        using list_all_chunk_sat_cong [of pre h1 h, OF samep] by simp
      have l1: "list_all (chunk_sat h1 (\<lambda>c. 0 < d_size c \<and> unat (d_size c) \<le> d_alloc c))
                  (pre @ [w, a])"
        using lp c cs wc ws wpos f(4) by (simp add: chunk_sat_def)
      obtain r where r: "readp i = Some r" using f(2) by auto
      with hd have hr: "chunk_sat h (\<lambda>c. next_r i \<le> d_size c) r" by simp
      have ra: "r \<noteq> a" using hr al(3) by (auto simp: chunk_sat_def)
      have hr1: "chunk_sat h1 (\<lambda>c. next_r i \<le> d_size c) r"
      proof (cases "r = w")
        case True
        with hr grow(2) wc ws show ?thesis by (simp add: chunk_sat_def)
      next
        case False
        with ra same [of r] hr show ?thesis by (simp add: chunk_sat_def)
      qed
      have w1: "wr_inv h1 i1"
        using ok1 nd wc ws f i1 grow(1) full by (simp add: wr_inv_def)
      have inv1: "fill_inv h1 i1 (pre @ [w, a])"
        using w1 p l1 hr1 r i1 grow(1) by (simp add: fill_inv_def)
      define i2 where "i2 = i1\<lparr>writep := Some a, next_w := s\<rparr>"
      have "next_w i1 = d_size wc" using i1 full ws by simp
      then have pw: "netmap_confbuf_post_write h1 i1 s = Some i2"
        using post_write_eq [of i1 w h1 wc s] wc ws i1 grow(1) by (simp add: i2_def)
      have s: "s \<le> d_size c" using 1(5) sz cs(1) by (simp add: clip_le_avail)
      have w2: "wr_inv h1 i2"
        using ok1 nd c cs i1 s f(2) by (simp add: wr_inv_def i2_def)
      have inv2: "fill_inv h1 i2 (pre @ [w, a])"
        using w2 p l1 hr1 r i1 by (simp add: fill_inv_def i2_def)
      from inv1 pw inv2 show ?thesis by blast
    qed
  qed
qed


lemma fill_inv_write_loop_aux:
  assumes "config_write_loop h i uio = Some r"
  shows "\<forall>as. fill_inv h i as \<longrightarrow> (\<exists>as'. fill_inv (fst (snd r)) (fst (snd (snd r))) as')"
proof (rule config_write_loop.raw_induct
    [where P = "\<lambda>h i uio r. \<forall>as. fill_inv h i as \<longrightarrow>
                   (\<exists>as'. fill_inv (fst (snd r)) (fst (snd (snd r))) as')", OF _ assms])
  fix self h i uio r
  assume IH: "\<And>h i uio r. self h i uio = Some r \<Longrightarrow>
      \<forall>as. fill_inv h i as \<longrightarrow> (\<exists>as'. fill_inv (fst (snd r)) (fst (snd (snd r))) as')"
    and body: "(if 0 < uio_resid uio then
        (case netmap_confbuf_pre_write h i (of_nat (uio_resid uio)) True of
           None \<Rightarrow> None
         | Some (None, h1, i1) \<Rightarrow> Some (ENOMEM, h1, i1, uio)
         | Some (Some (p, s), h1, i1) \<Rightarrow>
             (case uiomove h1 p (sint s) uio of
                None \<Rightarrow> None
              | Some (ret, h2, uio2) \<Rightarrow>
                  if ret \<noteq> 0 then Some (ret, h2, i1, uio2)
                  else (case netmap_confbuf_post_write h2 i1 s of
                          None \<Rightarrow> None
                        | Some i2 \<Rightarrow> self h2 i2 uio2)))
      else Some (0, h, i, uio)) = Some r"
  show "\<forall>as. fill_inv h i as \<longrightarrow> (\<exists>as'. fill_inv (fst (snd r)) (fst (snd (snd r))) as')"
  proof (intro allI impI)
    fix as assume inv: "fill_inv h i as"
    show "\<exists>as'. fill_inv (fst (snd r)) (fst (snd (snd r))) as'"
    proof (cases "0 < uio_resid uio")
      case False
      with body inv show ?thesis by auto
    next
      case True
      with body obtain res h1 i1 where
        pre: "netmap_confbuf_pre_write h i (of_nat (uio_resid uio)) True = Some (res, h1, i1)"
        by (auto split: option.splits)
      show ?thesis
      proof (cases res)
        case None
        with pre have pn: "netmap_confbuf_pre_write h i (of_nat (uio_resid uio)) True
            = Some (None, h1, i1)" by simp
        from pre_write_NULL [OF pn] have "h1 = h" "i1 = i" by simp_all
        moreover from pn body True have "r = (ENOMEM, h1, i1, uio)" by simp
        ultimately show ?thesis using inv by auto
      next
        case (Some ps)
        obtain a b s where ps: "ps = ((a, b), s)" by (cases ps) auto
        with Some pre have pre':
          "netmap_confbuf_pre_write h i (of_nat (uio_resid uio)) True = Some (Some ((a, b), s), h1, i1)"
          by simp
        from fill_pre_post [OF inv pre'] obtain as1 i2 where
          st: "fill_inv h1 i1 as1" "netmap_confbuf_post_write h1 i1 s = Some i2" "fill_inv h1 i2 as1"
          by blast
        from body True pre' obtain ret h2 uio2 where
          mv: "uiomove h1 (a, b) (sint s) uio = Some (ret, h2, uio2)"
          by (auto split: option.splits)
        from uiomove_frame [OF mv]
        have fr: "h2 = h1 \<or> (\<exists>g. h2 = store h1 a (\<lambda>c. c\<lparr>d_data := g c\<rparr>))" by simp
        show ?thesis
        proof (cases "ret = 0")
          case False
          with body True pre' mv have "r = (ret, h2, i1, uio2)" by simp
          with st(1) frame_fill_inv [OF fr, of i1 as1] show ?thesis by auto
        next
          case True
          have "netmap_confbuf_post_write h2 i1 s = Some i2"
            using frame_post_write [OF fr, of i1 s] st(2) by simp
          with body \<open>0 < uio_resid uio\<close> pre' mv True have "self h2 i2 uio2 = Some r" by simp
          from IH [OF this] st(3) frame_fill_inv [OF fr, of i2 as1] show ?thesis by auto
        qed
      qed
    qed
  qed
qed

lemma fill_inv_write_loop:
  "fill_inv h i as \<Longrightarrow> config_write_loop h i uio = Some (ret, h', i', uio') \<Longrightarrow>
   \<exists>as'. fill_inv h' i' as'"
  using fill_inv_write_loop_aux [of h i uio "(ret, h', i', uio')"] by auto

lemma destroy_zero: "netmap_confbuf_destroy h zero_confbuf = Some (h, zero_confbuf)"
  by (simp add: netmap_confbuf_destroy_def zero_confbuf_def destroy_loop.simps)

lemma fill_inv_config_writes:
  "fill_inv h (buf0 c) as \<Longrightarrow> buf1 c = zero_confbuf \<Longrightarrow>
   config_writes h c us = Some (rets, h', c') \<Longrightarrow>
   buf1 c' = zero_confbuf \<and> (\<exists>as'. fill_inv h' (buf0 c') as')"
proof (induction us arbitrary: h c as rets)
  case Nil
  then show ?case by auto
next
  case (Cons u us)
  from Cons.prems(3) obtain ret h1 c1 u1 rets1 where
    w: "netmap_config_write h c u = Some (ret, h1, c1, u1)"
    and rest: "config_writes h1 c1 us = Some (rets1, h', c')"
    by (auto split: option.splits)
  from w Cons.prems(2) obtain i2 where
    l: "config_write_loop h (buf0 c) u = Some (ret, h1, i2, u1)"
    and c1: "c1 = \<lparr>buf0 = i2, buf1 = zero_confbuf\<rparr>"
    by (auto simp: netmap_config_write_def destroy_zero split: option.splits)
  from fill_inv_write_loop [OF Cons.prems(1) l] obtain as1 where "fill_inv h1 i2 as1" by blast
  with c1 have "fill_inv h1 (buf0 c1) as1" "buf1 c1 = zero_confbuf" by simp_all
  from Cons.IH [OF this rest] show ?case .
qed

lemma written_channel_inv:
  assumes "alloc_ok h" "config_writes h chan_zero us = Some (rets, h', c')"
  shows "buf1 c' = zero_confbuf \<and> wr_inv h' (buf0 c') \<and> (\<exists>as. rd_inv h' (buf0 c') as)"
proof -
  have "fill_inv h (buf0 chan_zero) []" "buf1 chan_zero = zero_confbuf"
    using assms(1) by (simp_all add: chan_zero_def fill_inv_zero)
  from fill_inv_config_writes [OF this assms(2)]
  obtain as where z: "buf1 c' = zero_confbuf" and f: "fill_inv h' (buf0 c') as" by blast
  from f have "wr_inv h' (buf0 c')" by (simp add: fill_inv_def)
  moreover from f have "rd_inv h' (buf0 c') as" by (rule fill_inv_rd_inv)
  ultimately show ?thesis using z by blast
qed

end
